theory Spec2Isabelle
  imports Main "HOL-Library.AList"
begin

section \<open>Text: Python strings as lists of code points\<close>

text \<open>
  A Python \<open>str\<close> is a sequence of Unicode code points, so it is modelled as a list of
  natural numbers; a file's content is a sequence of bytes, modelled as a \<open>string\<close>
  (a list of 8-bit characters).  \<open>ustr\<close> writes an ASCII literal as a \<open>str\<close>.
\<close>

type_synonym str = "nat list"
type_synonym bytes = "string"

abbreviation ustr :: "string \<Rightarrow> str" where
  "ustr s \<equiv> map of_char s"

text \<open>
  \<open>str.isspace\<close> for one character, which is also what \<open>\s\<close> matches in a
  \<open>str\<close> pattern of \<open>re\<close>: the characters of category Zs and of bidirectional class
  WS, B or S.
\<close>

definition isspace :: "nat \<Rightarrow> bool" where
  "isspace c =
     ((9 \<le> c \<and> c \<le> 13) \<or> (28 \<le> c \<and> c \<le> 32) \<or> c = 133 \<or> c = 160 \<or> c = 5760
      \<or> (8192 \<le> c \<and> c \<le> 8202) \<or> c = 8232 \<or> c = 8233 \<or> c = 8239 \<or> c = 8287
      \<or> c = 12288)"

definition lstrip :: "str \<Rightarrow> str" where
  "lstrip s = dropWhile isspace s"

definition rstrip :: "str \<Rightarrow> str" where
  "rstrip s = rev (dropWhile isspace (rev s))"

definition strip :: "str \<Rightarrow> str" where
  "strip s = rstrip (lstrip s)"

text \<open>\<open>s.startswith(p)\<close> and \<open>p in s\<close>.\<close>

fun startswith :: "str \<Rightarrow> str \<Rightarrow> bool" where
  "startswith s [] = True"
| "startswith [] (p # ps) = False"
| "startswith (c # s) (p # ps) = (c = p \<and> startswith s ps)"

fun contains :: "str \<Rightarrow> str \<Rightarrow> bool" where
  "contains [] p = (p = [])"
| "contains (c # s) p = (startswith (c # s) p \<or> contains s p)"

text \<open>\<open>s.split(sep)\<close> for a one-character separator, and \<open>s.split(sep, 1)\<close>
  for a string that contains the separator.\<close>

fun split_on :: "nat \<Rightarrow> str \<Rightarrow> str list" where
  "split_on sep [] = [[]]"
| "split_on sep (c # s) =
     (if c = sep then [] # split_on sep s
      else (case split_on sep s of
              [] \<Rightarrow> [[c]]
            | w # ws \<Rightarrow> (c # w) # ws))"

definition split_once :: "nat \<Rightarrow> str \<Rightarrow> str \<times> str" where
  "split_once sep s = (takeWhile (\<lambda>c. c \<noteq> sep) s, tl (dropWhile (\<lambda>c. c \<noteq> sep) s))"

text \<open>\<open>s.rfind(c)\<close>: the index of the last occurrence, \<open>-1\<close> when there is none.\<close>

definition rfind :: "nat \<Rightarrow> str \<Rightarrow> int" where
  "rfind c s =
     (if c \<in> set s
      then int (length s) - 1 - int (length (takeWhile (\<lambda>x. x \<noteq> c) (rev s)))
      else - 1)"

section \<open>ConfigModel: \<open>DotfilesConfig.parse_config\<close>\<close>

text \<open>
  The three containers of a \<open>DotfilesConfig\<close> object.  \<open>file_map\<close> and
  \<open>custom_map\<close> are Python dicts: an assignment to a key that is present replaces the
  value and keeps the key's position, which is \<open>AList.update\<close>.  The directories of the
  object are absolute paths, lists of components.
\<close>

type_synonym path = "str list"

record config =
  dotfiles :: "str list"
  file_map :: "(str \<times> str) list"
  custom_map :: "(str \<times> str) list"
  repo_dir :: path
  backup_dir :: path
  custom_dir :: path

text \<open>The errors that \<open>validate\<close> collects.\<close>

datatype verr =
    NoDotfiles
  | NoFileMappings
  | SourceNotFound str
  | CustomNotFound str
  | DuplicateEntries

text \<open>What the program prints on standard error, one constructor for each message.\<close>

datatype msg =
    WarnInvalidFormat nat str
  | WarnInvalidCustomFormat nat str
  | WarnEmptyCustomFilename nat str
  | WarnEmptyValues nat str
  | ErrDangerousSystemPath nat str
  | ErrPathTraversal nat
  | WarnDangerousPattern path
  | WarnNotStandardEnv path
  | WarnCannotValidate path
  | WarnEnvsubstNotAvailable path
  | WarnTemplateNotFound path
  | WarnSkippingUnsafeEnv path
  | WarnTemplateFailed path
  | WarnNoOutputFile path
  | ErrTemplateTimedOut path
  | ErrProcessingTemplate path
  | WarnNoRollbackBackup path
  | WarnCustomNotFound path
  | ErrSourceNotFound str
  | ErrRefusingHome
  | ErrOutsideHome path
  | ErrValidation verr
  | ErrException

text \<open>The two \<open>ValueError\<close>s of \<open>parse_config\<close>, with the text they carry.\<close>

datatype safety_error =
    RefusingRootOrHome str
  | PathTraversalNotAllowed str

text \<open>
  The body of the loop over the lines of the mapping file, for line number \<open>n\<close>:
  \<open>Inr\<close> is the object after the line (a \<open>continue\<close> leaves it as it was),
  \<open>Inl\<close> is a \<open>raise\<close>.  The messages printed come with both.
\<close>

definition parse_line ::
  "config \<Rightarrow> nat \<Rightarrow> str \<Rightarrow> msg list \<times> (safety_error + config)" where
  "parse_line cfg n raw =
    (let line = strip raw in
     if line = [] \<or> startswith line (ustr ''#'') then ([], Inr cfg)
     else if \<not> contains line (ustr '':'') then ([WarnInvalidFormat n line], Inr cfg)
     else
       let custom = startswith line (ustr ''custom:'');
           prefix_and_file = drop 7 line;
           last_colon = rfind 58 prefix_and_file;
           custom_filename = take (nat last_colon) prefix_and_file
       in
       if custom \<and> \<not> contains prefix_and_file (ustr '':'')
       then ([WarnInvalidCustomFormat n line], Inr cfg)
       else if custom \<and> strip custom_filename = []
       then ([WarnEmptyCustomFilename n line], Inr cfg)
       else
         let (repo_path0, system_path0) =
               (if custom
                then (ustr ''custom:'' @ custom_filename, drop (nat (last_colon + 1)) prefix_and_file)
                else split_once 58 line);
             repo_path = strip repo_path0;
             system_path = strip system_path0
         in
         if repo_path = [] \<or> system_path = [] then ([WarnEmptyValues n line], Inr cfg)
         else if system_path = ustr ''/'' \<or> system_path = ustr ''~''
         then ([ErrDangerousSystemPath n system_path], Inl (RefusingRootOrHome system_path))
         else if startswith repo_path (ustr ''custom:'')
         then
           (let custom_path = strip (drop 7 repo_path) in
            if contains custom_path (ustr ''..'') \<or> contains system_path (ustr ''..'')
            then ([ErrPathTraversal n], Inl (PathTraversalNotAllowed line))
            else ([], Inr (cfg\<lparr>custom_map := AList.update system_path custom_path (custom_map cfg)\<rparr>)))
         else
           (if contains repo_path (ustr ''..'') \<or> contains system_path (ustr ''..'')
            then ([ErrPathTraversal n], Inl (PathTraversalNotAllowed line))
            else ([], Inr (cfg\<lparr>dotfiles := dotfiles cfg @ [repo_path],
                                file_map := AList.update repo_path system_path (file_map cfg)\<rparr>))))"

text \<open>
  The loop \<open>for line_num, line in enumerate(f, 1)\<close>.  The object is mutated in place, so
  when a line raises the caller is left with the object as the earlier lines made it: the
  result is the messages, the object, and the error if there was one.
\<close>

fun parse_lines ::
  "config \<Rightarrow> nat \<Rightarrow> str list \<Rightarrow> msg list \<times> config \<times> safety_error option" where
  "parse_lines cfg n [] = ([], cfg, None)"
| "parse_lines cfg n (l # ls) =
     (case parse_line cfg n l of
        (ms, Inl e) \<Rightarrow> (ms, cfg, Some e)
      | (ms, Inr cfg') \<Rightarrow>
          (case parse_lines cfg' (Suc n) ls of (ms', r) \<Rightarrow> (ms @ ms', r)))"

definition parse_config :: "config \<Rightarrow> str list \<Rightarrow> msg list \<times> config \<times> safety_error option" where
  "parse_config cfg file_lines = parse_lines cfg 1 file_lines"

section \<open>Files: bytes, UTF-8 and the file system\<close>

text \<open>
  Strict UTF-8, as Python's codec decodes it: no overlong form, no surrogate, nothing above
  U+10FFFF.  \<open>None\<close> is \<open>UnicodeDecodeError\<close>.
\<close>

definition is_cont :: "nat \<Rightarrow> bool" where
  "is_cont b = (128 \<le> b \<and> b < 192)"

fun utf8_decode_nat :: "nat list \<Rightarrow> str option" where
  "utf8_decode_nat [] = Some []"
| "utf8_decode_nat (b0 # bs) =
     (if b0 < 128 then map_option (Cons b0) (utf8_decode_nat bs)
      else if 194 \<le> b0 \<and> b0 < 224 then
        (case bs of
           b1 # r \<Rightarrow>
             if is_cont b1
             then map_option (Cons ((b0 - 192) * 64 + (b1 - 128))) (utf8_decode_nat r)
             else None
         | _ \<Rightarrow> None)
      else if 224 \<le> b0 \<and> b0 < 240 then
        (case bs of
           b1 # b2 # r \<Rightarrow>
             if is_cont b1 \<and> is_cont b2
                \<and> (if b0 = 224 then 160 \<le> b1 else True)
                \<and> (if b0 = 237 then b1 < 160 else True)
             then map_option (Cons ((b0 - 224) * 4096 + (b1 - 128) * 64 + (b2 - 128)))
                    (utf8_decode_nat r)
             else None
         | _ \<Rightarrow> None)
      else if 240 \<le> b0 \<and> b0 < 245 then
        (case bs of
           b1 # b2 # b3 # r \<Rightarrow>
             if is_cont b1 \<and> is_cont b2 \<and> is_cont b3
                \<and> (if b0 = 240 then 144 \<le> b1 else True)
                \<and> (if b0 = 244 then b1 < 144 else True)
             then map_option
                    (Cons ((b0 - 240) * 262144 + (b1 - 128) * 4096 + (b2 - 128) * 64 + (b3 - 128)))
                    (utf8_decode_nat r)
             else None
         | _ \<Rightarrow> None)
      else None)"

definition utf8_decode :: "bytes \<Rightarrow> str option" where
  "utf8_decode b = utf8_decode_nat (map of_char b)"

text \<open>Encoding one code point; \<open>None\<close> is \<open>UnicodeEncodeError\<close> (a surrogate, or a
  number that is no code point).\<close>

definition utf8_encode_cp :: "nat \<Rightarrow> nat list option" where
  "utf8_encode_cp c =
     (if c < 128 then Some [c]
      else if c < 2048 then Some [192 + c div 64, 128 + c mod 64]
      else if 55296 \<le> c \<and> c < 57344 then None
      else if c < 65536 then Some [224 + c div 4096, 128 + (c div 64) mod 64, 128 + c mod 64]
      else if c < 1114112
      then Some [240 + c div 262144, 128 + (c div 4096) mod 64, 128 + (c div 64) mod 64,
                 128 + c mod 64]
      else None)"

fun utf8_encode :: "str \<Rightarrow> bytes option" where
  "utf8_encode [] = Some []"
| "utf8_encode (c # s) =
     (case utf8_encode_cp c of
        None \<Rightarrow> None
      | Some bs \<Rightarrow> map_option (\<lambda>r. map char_of bs @ r) (utf8_encode s))"

text \<open>
  A file opened in text mode is read with universal newlines: \<open>\r\n\<close> and a lone
  \<open>\r\<close> both arrive as \<open>\n\<close>.  The flag says that the character before was a
  \<open>\r\<close>.
\<close>

fun universal_newlines :: "bool \<Rightarrow> str \<Rightarrow> str" where
  "universal_newlines prev_cr [] = []"
| "universal_newlines prev_cr (c # s) =
     (if c = 13 then 10 # universal_newlines True s
      else if c = 10 \<and> prev_cr then universal_newlines False s
      else c # universal_newlines False s)"

text \<open>
  The file system is a map from absolute paths to nodes; the root is the empty path and is
  always a directory.  There are no symbolic links and no permissions in the model, and the
  host is POSIX (text written keeps \<open>\n\<close>) with UTF-8 as the locale's encoding.
\<close>

datatype node = File bytes | Dir

type_synonym fs = "path \<Rightarrow> node option"

datatype exn =
    FileNotFoundError
  | FileExistsError
  | NotADirectoryError
  | IsADirectoryError
  | SameFileError
  | UnicodeDecodeError
  | UnicodeEncodeError
  | EOFError
  | ValueError safety_error
  | OtherError

definition lookup :: "fs \<Rightarrow> path \<Rightarrow> node option" where
  "lookup f p = (if p = [] then Some Dir else f p)"

definition exists :: "fs \<Rightarrow> path \<Rightarrow> bool" where
  "exists f p = (lookup f p \<noteq> None)"

definition is_dir :: "fs \<Rightarrow> path \<Rightarrow> bool" where
  "is_dir f p = (lookup f p = Some Dir)"

definition is_file :: "fs \<Rightarrow> path \<Rightarrow> bool" where
  "is_file f p = (case lookup f p of Some (File b) \<Rightarrow> True | _ \<Rightarrow> False)"

definition read_bytes :: "fs \<Rightarrow> path \<Rightarrow> exn + bytes" where
  "read_bytes f p =
     (case lookup f p of
        None \<Rightarrow> Inl FileNotFoundError
      | Some Dir \<Rightarrow> Inl IsADirectoryError
      | Some (File b) \<Rightarrow> Inr b)"

text \<open>\<open>Path.read_text\<close>, with \<open>encoding='utf-8'\<close> or with the locale's encoding.\<close>

definition read_text :: "fs \<Rightarrow> path \<Rightarrow> exn + str" where
  "read_text f p =
     (case read_bytes f p of
        Inl e \<Rightarrow> Inl e
      | Inr b \<Rightarrow>
          (case utf8_decode b of
             None \<Rightarrow> Inl UnicodeDecodeError
           | Some s \<Rightarrow> Inr (universal_newlines False s)))"

section \<open>Regular expressions\<close>

text \<open>
  The patterns of the program use literals, character classes, sequence and repetition.
  They are matched by derivatives: \<open>rx_prefix r s\<close> says that some prefix of \<open>s\<close>
  matches \<open>r\<close>, which is \<open>re.match(r, s)\<close> as a truth value, and \<open>rx_search\<close> is
  \<open>re.search\<close> as a truth value.
\<close>

datatype rx =
    Nomatch
  | Eps
  | Cls "nat \<Rightarrow> bool"
  | Alt rx rx
  | Seq rx rx
  | Star rx

fun nullable :: "rx \<Rightarrow> bool" where
  "nullable Nomatch = False"
| "nullable Eps = True"
| "nullable (Cls P) = False"
| "nullable (Alt r s) = (nullable r \<or> nullable s)"
| "nullable (Seq r s) = (nullable r \<and> nullable s)"
| "nullable (Star r) = True"

fun deriv :: "nat \<Rightarrow> rx \<Rightarrow> rx" where
  "deriv c Nomatch = Nomatch"
| "deriv c Eps = Nomatch"
| "deriv c (Cls P) = (if P c then Eps else Nomatch)"
| "deriv c (Alt r s) = Alt (deriv c r) (deriv c s)"
| "deriv c (Seq r s) =
     (if nullable r then Alt (Seq (deriv c r) s) (deriv c s) else Seq (deriv c r) s)"
| "deriv c (Star r) = Seq (deriv c r) (Star r)"

fun rx_prefix :: "rx \<Rightarrow> str \<Rightarrow> bool" where
  "rx_prefix r [] = nullable r"
| "rx_prefix r (c # s) = (nullable r \<or> rx_prefix (deriv c r) s)"

fun rx_search :: "rx \<Rightarrow> str \<Rightarrow> bool" where
  "rx_search r [] = nullable r"
| "rx_search r (c # s) = (rx_prefix r (c # s) \<or> rx_search r s)"

definition Lit :: "string \<Rightarrow> rx" where
  "Lit s = foldr (\<lambda>c r. Seq (Cls (\<lambda>x. x = of_char c)) r) s Eps"

definition Plus :: "rx \<Rightarrow> rx" where
  "Plus r = Seq r (Star r)"

definition Space :: rx where
  "Space = Cls isspace"

text \<open>The classes \<open>[A-Za-z_]\<close> and \<open>[A-Za-z0-9_]\<close>.\<close>

definition name_start :: "nat \<Rightarrow> bool" where
  "name_start c = ((65 \<le> c \<and> c \<le> 90) \<or> (97 \<le> c \<and> c \<le> 122) \<or> c = 95)"

definition name_char :: "nat \<Rightarrow> bool" where
  "name_char c = (name_start c \<or> (48 \<le> c \<and> c \<le> 57))"

section \<open>TemplateDetector: \<open>detect_template_variables\<close>\<close>

text \<open>
  One match of \<^verbatim>\<open>\$\{([A-Za-z_][A-Za-z0-9_]*)\}\<close> at the start of a string: the
  group and what follows the match.  The closing brace is not a name character, so the
  greedy repetition has one way to match: the whole run of name characters.
\<close>

definition match_var :: "str \<Rightarrow> (str \<times> str) option" where
  "match_var s =
     (case s of
        a # b # r \<Rightarrow>
          (let name = takeWhile name_char r; rest = dropWhile name_char r in
           if a = 36 \<and> b = 123 \<and> name \<noteq> [] \<and> name_start (hd name) \<and> startswith rest [125]
           then Some (name, tl rest) else None)
      | _ \<Rightarrow> None)"

text \<open>
  \<open>re.findall\<close>: the matches from left to right, the scan going on after each match.
  \<open>skip\<close> counts the characters of the last match that are still to be passed.
\<close>

fun findall_vars :: "nat \<Rightarrow> str \<Rightarrow> str list" where
  "findall_vars skip [] = []"
| "findall_vars (Suc k) (c # s) = findall_vars k s"
| "findall_vars 0 (c # s) =
     (case match_var (c # s) of
        Some (name, rest) \<Rightarrow> name # findall_vars (length name + 2) s
      | None \<Rightarrow> findall_vars 0 s)"

definition detect_template_variables :: "fs \<Rightarrow> path \<Rightarrow> str set" where
  "detect_template_variables f file_path =
     (case read_text f file_path of
        Inl e \<Rightarrow> {}
      | Inr content \<Rightarrow> set (findall_vars 0 content))"

section \<open>EnvSourceResolver: \<open>validate_env_file\<close>\<close>

text \<open>The class \<^verbatim>\<open>[;&|`$(){}]\<close>.\<close>

definition metachar :: "nat \<Rightarrow> bool" where
  "metachar c = (c \<in> of_char ` set '';&|`$(){}'')"

definition dangerous_patterns :: "rx list" where
  "dangerous_patterns =
     [Cls metachar,
      Lit ''$('',
      Lit ''`'',
      Seq (Lit ''eval'') Space,
      Seq (Lit ''exec'') Space,
      Seq (Lit ''|'') (Seq (Star Space) (Lit ''sh'')),
      Seq (Lit ''>'') (Seq (Star Space) (Lit ''/dev/'')),
      Seq (Lit ''rm'') (Seq (Plus Space) (Lit ''-rf''))]"

text \<open>
  \<^verbatim>\<open>^[A-Za-z_][A-Za-z0-9_]*=.*$\<close> and \<^verbatim>\<open>^export\s+[A-Za-z_][A-Za-z0-9_]*=.*$\<close>
  under \<open>re.match\<close>.  The lines matched come from \<open>content.split('\n')\<close>, so they hold
  no newline, and \<^verbatim>\<open>.*$\<close> matches the rest of any such line: the line matches when a
  prefix of it matches the pattern up to the \<open>=\<close>.
\<close>

definition key_value_rx :: rx where
  "key_value_rx = Seq (Cls name_start) (Seq (Star (Cls name_char)) (Lit ''=''))"

definition export_key_value_rx :: rx where
  "export_key_value_rx = Seq (Lit ''export'') (Seq (Plus Space) key_value_rx)"

definition valid_env_line :: "str \<Rightarrow> bool" where
  "valid_env_line line = (rx_prefix key_value_rx line \<or> rx_prefix export_key_value_rx line)"

definition env_lines :: "str \<Rightarrow> str list" where
  "env_lines content =
     map strip (filter (\<lambda>line. strip line \<noteq> [] \<and> \<not> startswith (strip line) (ustr ''#''))
                  (split_on 10 content))"

text \<open>
  The test \<open>valid_lines / len(lines) < 0.8\<close> divides and compares doubles.  The model
  compares the integers, \<open>5 * valid_lines < 4 * len(lines)\<close>, which gives the same answer
  for every file of fewer than \<open>10^16\<close> lines.
\<close>

definition validate_env_file :: "fs \<Rightarrow> path \<Rightarrow> msg list \<times> bool" where
  "validate_env_file f env_file_path =
     (if \<not> exists f env_file_path \<or> \<not> is_file f env_file_path then ([], False)
      else
        (case read_text f env_file_path of
           Inl e \<Rightarrow> ([WarnCannotValidate env_file_path], False)
         | Inr content \<Rightarrow>
             if list_ex (\<lambda>pattern. rx_search pattern content) dangerous_patterns
             then ([WarnDangerousPattern env_file_path], False)
             else
               (let lines = env_lines content;
                    valid_lines = length (filter valid_env_line lines)
                in if lines \<noteq> [] \<and> 5 * valid_lines < 4 * length lines
                   then ([WarnNotStandardEnv env_file_path], False)
                   else ([], True))))"

section \<open>File system operations\<close>

definition is_prefix :: "path \<Rightarrow> path \<Rightarrow> bool" where
  "is_prefix p q = (take (length p) q = p)"

text \<open>
  Creating the directories along a path, from the root down: \<open>pre\<close> is the part that
  exists, \<open>last_err\<close> the error when the last component is a file.  A file on the way
  is \<open>NotADirectoryError\<close>.  \<open>Path.mkdir(parents=True, exist_ok=True)\<close> raises
  \<open>FileExistsError\<close> when the path itself is a file.
\<close>

fun mkdirs :: "exn \<Rightarrow> fs \<Rightarrow> path \<Rightarrow> str list \<Rightarrow> exn + fs" where
  "mkdirs last_err f pre [] = Inr f"
| "mkdirs last_err f pre (c # cs) =
     (case f (pre @ [c]) of
        None \<Rightarrow> mkdirs last_err (f(pre @ [c] \<mapsto> Dir)) (pre @ [c]) cs
      | Some Dir \<Rightarrow> mkdirs last_err f (pre @ [c]) cs
      | Some (File b) \<Rightarrow> Inl (if cs = [] then last_err else NotADirectoryError))"

definition mkdir_parents :: "fs \<Rightarrow> path \<Rightarrow> exn + fs" where
  "mkdir_parents f p = mkdirs FileExistsError f [] p"

text \<open>Opening a file for writing and writing bytes: the directory of the file must exist.\<close>

definition write_file :: "fs \<Rightarrow> path \<Rightarrow> bytes \<Rightarrow> exn + fs" where
  "write_file f p b =
     (if p = [] then Inl IsADirectoryError
      else
        (case lookup f (butlast p) of
           None \<Rightarrow> Inl FileNotFoundError
         | Some (File x) \<Rightarrow> Inl NotADirectoryError
         | Some Dir \<Rightarrow>
             (case f p of
                Some Dir \<Rightarrow> Inl IsADirectoryError
              | _ \<Rightarrow> Inr (f(p \<mapsto> File b)))))"

definition unlink :: "fs \<Rightarrow> path \<Rightarrow> exn + fs" where
  "unlink f p =
     (case lookup f p of
        None \<Rightarrow> Inl FileNotFoundError
      | Some Dir \<Rightarrow> Inl IsADirectoryError
      | Some (File b) \<Rightarrow> Inr (f(p := None)))"

text \<open>\<open>shutil.rmtree\<close>: the directory and all that is below it.\<close>

definition rmtree :: "fs \<Rightarrow> path \<Rightarrow> exn + fs" where
  "rmtree f p =
     (case lookup f p of
        None \<Rightarrow> Inl FileNotFoundError
      | Some (File b) \<Rightarrow> Inl NotADirectoryError
      | Some Dir \<Rightarrow> Inr (\<lambda>q. if is_prefix p q then None else f q))"

text \<open>
  \<open>shutil.copy2(src, dst)\<close>: when \<open>dst\<close> is a directory the file goes into it under
  the base name of \<open>src\<close>; copying a file onto itself is \<open>SameFileError\<close>.  The bytes
  are copied; the metadata that \<open>copy2\<close> copies as well is not part of the model.
\<close>

definition copy2 :: "fs \<Rightarrow> path \<Rightarrow> path \<Rightarrow> exn + fs" where
  "copy2 f src dst =
     (let target = (if is_dir f dst \<and> src \<noteq> [] then dst @ [last src] else dst) in
      if exists f src \<and> src = target then Inl SameFileError
      else
        (case lookup f src of
           None \<Rightarrow> Inl FileNotFoundError
         | Some Dir \<Rightarrow> Inl IsADirectoryError
         | Some (File b) \<Rightarrow> write_file f target b))"

text \<open>
  \<open>shutil.copytree(src, dst)\<close>: \<open>src\<close> must be a directory and \<open>dst\<close> must not
  exist; the directories above \<open>dst\<close> are made, then everything below \<open>src\<close> appears
  below \<open>dst\<close>.  A copy of a directory into itself does not end well in Python; the model
  makes it an error that changes nothing.
\<close>

definition copytree :: "fs \<Rightarrow> path \<Rightarrow> path \<Rightarrow> exn + fs" where
  "copytree f src dst =
     (case lookup f src of
        None \<Rightarrow> Inl FileNotFoundError
      | Some (File b) \<Rightarrow> Inl NotADirectoryError
      | Some Dir \<Rightarrow>
          if exists f dst then Inl FileExistsError
          else if is_prefix src dst then Inl OtherError
          else
            (case mkdirs NotADirectoryError f [] (butlast dst) of
               Inl e \<Rightarrow> Inl e
             | Inr f' \<Rightarrow>
                 Inr (\<lambda>q. if is_prefix dst q then lookup f (src @ drop (length dst) q)
                          else f' q)))"

section \<open>The world the program runs in\<close>

text \<open>
  What the program changes: the file system, the lines still to be read from standard
  input, what has been printed on standard error, and the names that \<open>tempfile\<close> will
  try next.  \<open>ops\<close> records every change that the program made to the file system, in
  order.
\<close>

datatype change =
    OpMkdir path
  | OpRmtree path
  | OpCopytree path path
  | OpCopy2 path path
  | OpCreateTemp path
  | OpWrite path
  | OpUnlink path
  | OpShell path

record world =
  fs :: fs
  ops :: "change list"
  stdin :: "str list"
  stderr :: "msg list"
  tmpnames :: "str list"

text \<open>
  What the program does not change: the home directory, whether \<open>envsubst --help\<close>
  runs, and what the shell command of \<open>process_template_file\<close> does.  That command is
  outside the program; the model takes its result as given, for the environment files that
  passed validation, the template and the file system at the time: it times out, fails to
  run, or exits with a status, and in each case it leaves the output file with some content
  or removes it.  It is assumed to touch no other file.
\<close>

datatype help_result = HelpRan | HelpTimeout | HelpNotFound | HelpFailed

datatype run_result =
    RunTimeout "bytes option"
  | RunFailed "bytes option"
  | RunExit int "bytes option"

record host =
  home :: path
  envsubst_help :: help_result
  shell :: "path list \<Rightarrow> path \<Rightarrow> fs \<Rightarrow> run_result"

definition warn :: "msg list \<Rightarrow> world \<Rightarrow> world" where
  "warn ms w = w\<lparr>stderr := stderr w @ ms\<rparr>"

text \<open>A change of the file system: on success it is recorded, on an error nothing changes.\<close>

definition fs_op :: "change \<Rightarrow> (fs \<Rightarrow> exn + fs) \<Rightarrow> world \<Rightarrow> exn option \<times> world" where
  "fs_op opn g w =
     (case g (fs w) of
        Inl e \<Rightarrow> (Some e, w)
      | Inr f' \<Rightarrow> (None, w\<lparr>fs := f', ops := ops w @ [opn]\<rparr>))"

definition seq ::
  "(world \<Rightarrow> exn option \<times> world) \<Rightarrow> (world \<Rightarrow> exn option \<times> world) \<Rightarrow> world \<Rightarrow> exn option \<times> world"
  where
  "seq a b w = (case a w of (Some e, w') \<Rightarrow> (Some e, w') | (None, w') \<Rightarrow> b w')"

definition skip :: "world \<Rightarrow> exn option \<times> world" where
  "skip w = (None, w)"

definition do_mkdir :: "path \<Rightarrow> world \<Rightarrow> exn option \<times> world" where
  "do_mkdir p = fs_op (OpMkdir p) (\<lambda>f. mkdir_parents f p)"

definition do_rmtree :: "path \<Rightarrow> world \<Rightarrow> exn option \<times> world" where
  "do_rmtree p = fs_op (OpRmtree p) (\<lambda>f. rmtree f p)"

definition do_copytree :: "path \<Rightarrow> path \<Rightarrow> world \<Rightarrow> exn option \<times> world" where
  "do_copytree src dst = fs_op (OpCopytree src dst) (\<lambda>f. copytree f src dst)"

definition do_copy2 :: "path \<Rightarrow> path \<Rightarrow> world \<Rightarrow> exn option \<times> world" where
  "do_copy2 src dst = fs_op (OpCopy2 src dst) (\<lambda>f. copy2 f src dst)"

definition do_unlink :: "path \<Rightarrow> world \<Rightarrow> exn option \<times> world" where
  "do_unlink p = fs_op (OpUnlink p) (\<lambda>f. unlink f p)"

text \<open>
  Writing text to an open file or with \<open>Path.write_text\<close>: the file is opened, which
  empties it, and then the text is encoded.
\<close>

definition do_write_text :: "path \<Rightarrow> str \<Rightarrow> world \<Rightarrow> exn option \<times> world" where
  "do_write_text p s w =
     (case utf8_encode s of
        None \<Rightarrow>
          (case fs_op (OpWrite p) (\<lambda>f. write_file f p []) w of
             (Some e, w') \<Rightarrow> (Some e, w')
           | (None, w') \<Rightarrow> (Some UnicodeEncodeError, w'))
      | Some b \<Rightarrow> fs_op (OpWrite p) (\<lambda>f. write_file f p b) w)"

text \<open>
  \<open>tempfile.NamedTemporaryFile(suffix=..., dir=..., delete=False)\<close>: the first
  candidate name that is free is created as an empty file.  The candidates tried are used
  up.
\<close>

fun fresh_name :: "fs \<Rightarrow> path \<Rightarrow> str \<Rightarrow> str list \<Rightarrow> (str \<times> str list) option" where
  "fresh_name f d suffix [] = None"
| "fresh_name f d suffix (c # cs) =
     (if exists f (d @ [ustr ''tmp'' @ c @ suffix]) then fresh_name f d suffix cs
      else Some (ustr ''tmp'' @ c @ suffix, cs))"

definition create_temp :: "path \<Rightarrow> str \<Rightarrow> world \<Rightarrow> (exn + path) \<times> world" where
  "create_temp d suffix w =
     (case lookup (fs w) d of
        None \<Rightarrow> (Inl FileNotFoundError, w)
      | Some (File b) \<Rightarrow> (Inl NotADirectoryError, w)
      | Some Dir \<Rightarrow>
          (case fresh_name (fs w) d suffix (tmpnames w) of
             None \<Rightarrow> (Inl FileExistsError, w\<lparr>tmpnames := []\<rparr>)
           | Some (name, rest) \<Rightarrow>
               (Inr (d @ [name]),
                w\<lparr>fs := (fs w)(d @ [name] \<mapsto> File []),
                  ops := ops w @ [OpCreateTemp (d @ [name])],
                  tmpnames := rest\<rparr>)))"

text \<open>
  Paths.  \<open>base / s\<close> of \<open>pathlib\<close>: an absolute \<open>s\<close> replaces the base, empty
  components and \<open>.\<close> are dropped.  A component \<open>..\<close> is kept as it is and the model
  does not resolve it; \<open>parse_config\<close> lets no such path into a configuration.
\<close>

definition path_parts :: "str \<Rightarrow> str list" where
  "path_parts s = filter (\<lambda>c. c \<noteq> [] \<and> c \<noteq> ustr ''.'') (split_on 47 s)"

definition join :: "path \<Rightarrow> str \<Rightarrow> path" where
  "join base s = (if startswith s (ustr ''/'') then path_parts s else base @ path_parts s)"

section \<open>TemplateSubstitutor: \<open>process_template_file\<close>\<close>

text \<open>The loop that keeps the environment files that exist and pass validation.\<close>

fun validate_env_files :: "fs \<Rightarrow> path list \<Rightarrow> msg list \<times> path list" where
  "validate_env_files f [] = ([], [])"
| "validate_env_files f (env_path # rest) =
     (case (if exists f env_path then validate_env_file f env_path else ([], False)) of
        (ms, ok) \<Rightarrow>
          (case validate_env_files f rest of
             (ms', valid) \<Rightarrow>
               if exists f env_path \<and> ok then (ms @ ms', env_path # valid)
               else if exists f env_path
               then (ms @ [WarnSkippingUnsafeEnv env_path] @ ms', valid)
               else (ms', valid)))"

text \<open>What the shell command leaves at the output path.\<close>

definition set_output :: "path \<Rightarrow> bytes option \<Rightarrow> world \<Rightarrow> world" where
  "set_output p out w = w\<lparr>fs := (fs w)(p := map_option File out), ops := ops w @ [OpShell p]\<rparr>"

text \<open>
  Leaving the \<open>try\<close> block: the \<open>finally\<close> clause removes the output file if it
  exists.  \<open>msgs1\<close> is what was printed before the block was left, \<open>msgs2\<close> what an
  \<open>except\<close> clause prints afterwards.
\<close>

definition finish ::
  "path \<Rightarrow> path \<Rightarrow> bool \<Rightarrow> msg list \<Rightarrow> msg list \<Rightarrow> world \<Rightarrow> bool \<times> world" where
  "finish file_path temp_output_path res msgs1 msgs2 w =
     (case (if exists (fs (warn msgs1 w)) temp_output_path
            then do_unlink temp_output_path (warn msgs1 w)
            else skip (warn msgs1 w)) of
        (Some e, w') \<Rightarrow> (False, warn [ErrProcessingTemplate file_path] w')
      | (None, w') \<Rightarrow> (res, warn msgs2 w'))"

definition run_envsubst :: "host \<Rightarrow> path \<Rightarrow> path list \<Rightarrow> path \<Rightarrow> world \<Rightarrow> bool \<times> world" where
  "run_envsubst h file_path valid_env_files temp_output_path w =
     (case shell h valid_env_files file_path (fs w) of
        RunTimeout out \<Rightarrow>
          finish file_path temp_output_path False [] [ErrTemplateTimedOut file_path]
            (set_output temp_output_path out w)
      | RunFailed out \<Rightarrow>
          finish file_path temp_output_path False [] [ErrProcessingTemplate file_path]
            (set_output temp_output_path out w)
      | RunExit returncode out \<Rightarrow>
          (let w1 = set_output temp_output_path out w in
           if returncode \<noteq> 0
           then finish file_path temp_output_path False [WarnTemplateFailed file_path] [] w1
           else if \<not> exists (fs w1) temp_output_path
           then finish file_path temp_output_path False [WarnNoOutputFile file_path] [] w1
           else
             (case read_text (fs w1) temp_output_path of
                Inl e \<Rightarrow>
                  finish file_path temp_output_path False [] [ErrProcessingTemplate file_path] w1
              | Inr processed_content \<Rightarrow>
                  (case do_write_text file_path processed_content w1 of
                     (Some e, w2) \<Rightarrow>
                       finish file_path temp_output_path False []
                         [ErrProcessingTemplate file_path] w2
                   | (None, w2) \<Rightarrow> finish file_path temp_output_path True [] [] w2))))"

definition process_template_file :: "host \<Rightarrow> path \<Rightarrow> path list \<Rightarrow> world \<Rightarrow> bool \<times> world" where
  "process_template_file h file_path env_files w =
     (case envsubst_help h of
        HelpTimeout \<Rightarrow> (False, warn [WarnEnvsubstNotAvailable file_path] w)
      | HelpNotFound \<Rightarrow> (False, warn [WarnEnvsubstNotAvailable file_path] w)
      | HelpFailed \<Rightarrow> (False, warn [ErrProcessingTemplate file_path] w)
      | HelpRan \<Rightarrow>
          if \<not> exists (fs w) file_path \<or> \<not> is_file (fs w) file_path
          then (False, warn [WarnTemplateNotFound file_path] w)
          else
            (case create_temp (butlast file_path) (ustr ''.template_backup'') w of
               (Inl e, w1) \<Rightarrow> (False, warn [ErrProcessingTemplate file_path] w1)
             | (Inr backup_path, w1) \<Rightarrow>
                 (case read_text (fs w1) file_path of
                    Inl e \<Rightarrow> (False, warn [ErrProcessingTemplate file_path] w1)
                  | Inr original \<Rightarrow>
                      (case do_write_text backup_path original w1 of
                         (Some e, w2) \<Rightarrow> (False, warn [ErrProcessingTemplate file_path] w2)
                       | (None, w2) \<Rightarrow>
                           (case validate_env_files (fs w2) env_files of
                              (ms, valid_env_files) \<Rightarrow>
                                (case create_temp (butlast file_path) (ustr ''.tmp'') (warn ms w2) of
                                   (Inl e, w3) \<Rightarrow>
                                     (False, warn [ErrProcessingTemplate file_path] w3)
                                 | (Inr temp_output_path, w3) \<Rightarrow>
                                     run_envsubst h file_path valid_env_files temp_output_path
                                       w3))))))"

section \<open>Batch orchestration: \<open>process_synced_templates\<close>\<close>

definition get_secrets_files :: "host \<Rightarrow> path list" where
  "get_secrets_files h =
     [home h @ [ustr ''.env''], home h @ [ustr ''.config'', ustr ''dotfiles'', ustr ''.env'']]"

definition make_rollback :: "path \<Rightarrow> world \<Rightarrow> path option \<times> world" where
  "make_rollback dest_file w =
     (case create_temp (butlast dest_file) (ustr ''.rollback_backup'') w of
        (Inl e, w1) \<Rightarrow> (None, warn [WarnNoRollbackBackup dest_file] w1)
      | (Inr rollback_path, w1) \<Rightarrow>
          (case read_text (fs w1) dest_file of
             Inl e \<Rightarrow> (None, warn [WarnNoRollbackBackup dest_file] w1)
           | Inr content \<Rightarrow>
               (case do_write_text rollback_path content w1 of
                  (Some e, w2) \<Rightarrow> (None, warn [WarnNoRollbackBackup dest_file] w2)
                | (None, w2) \<Rightarrow> (Some rollback_path, w2))))"

text \<open>
  The first loop: the synced files that hold a template variable, each with a rollback
  copy.  \<open>templates_found\<close> and \<open>rollback_info\<close> are the accumulators of the loop.
\<close>

fun scan_templates ::
  "host \<Rightarrow> (str \<times> str) list \<Rightarrow> path list \<Rightarrow> (path \<times> path) list \<Rightarrow> world
   \<Rightarrow> (path list \<times> (path \<times> path) list) \<times> world" where
  "scan_templates h [] templates_found rollback_info w = ((templates_found, rollback_info), w)"
| "scan_templates h ((repo_path, dest_path) # rest) templates_found rollback_info w =
     (if \<not> exists (fs w) (join (home h) dest_path) \<or> is_dir (fs w) (join (home h) dest_path)
      then scan_templates h rest templates_found rollback_info w
      else if detect_template_variables (fs w) (join (home h) dest_path) = {}
      then scan_templates h rest templates_found rollback_info w
      else
        (case make_rollback (join (home h) dest_path) w of
           (None, w1) \<Rightarrow>
             scan_templates h rest (templates_found @ [join (home h) dest_path]) rollback_info w1
         | (Some rollback_path, w1) \<Rightarrow>
             scan_templates h rest (templates_found @ [join (home h) dest_path])
               (AList.update (join (home h) dest_path) rollback_path rollback_info) w1))"

text \<open>
  The second loop: the number of templates processed and the list of those that failed.
  \<open>analyze_template_environment\<close>, which the loop calls first, only reads and prints on
  standard output; it is left out.
\<close>

fun process_all ::
  "host \<Rightarrow> path list \<Rightarrow> path list \<Rightarrow> nat \<Rightarrow> path list \<Rightarrow> world \<Rightarrow> (nat \<times> path list) \<times> world"
  where
  "process_all h env_files [] templates_processed failed_templates w =
     ((templates_processed, failed_templates), w)"
| "process_all h env_files (template_file # rest) templates_processed failed_templates w =
     (case process_template_file h template_file env_files w of
        (True, w1) \<Rightarrow>
          process_all h env_files rest (Suc templates_processed) failed_templates w1
      | (False, w1) \<Rightarrow>
          process_all h env_files rest templates_processed (failed_templates @ [template_file])
            w1)"

fun cleanup_rollbacks :: "path list \<Rightarrow> (path \<times> path) list \<Rightarrow> world \<Rightarrow> world" where
  "cleanup_rollbacks failed_templates [] w = w"
| "cleanup_rollbacks failed_templates ((template_file, rollback_path) # rest) w =
     cleanup_rollbacks failed_templates rest
       (if template_file \<in> set failed_templates then w else snd (do_unlink rollback_path w))"

definition process_synced_templates :: "host \<Rightarrow> (str \<times> str) list \<Rightarrow> world \<Rightarrow> nat \<times> world" where
  "process_synced_templates h synced_files w =
     (if synced_files = [] then (0, w)
      else
        (case scan_templates h synced_files [] [] w of
           ((templates_found, rollback_info), w1) \<Rightarrow>
             if templates_found = [] then (0, w1)
             else
               (case process_all h (get_secrets_files h) templates_found 0 [] w1 of
                  ((templates_processed, failed_templates), w2) \<Rightarrow>
                    (templates_processed, cleanup_rollbacks failed_templates rollback_info w2))))"

section \<open>OverlayResolver and DiffEngine: the first pass of \<open>sync_from_repo\<close>\<close>

datatype status = Directory | Modified | Binary | New

datatype action = Keep | Replace | BackupReplace

datatype strategy = Ask | ReplaceAll | SkipAll

datatype 'a result = Return 'a | Raise exn

text \<open>
  The source of one entry of \<open>file_map\<close>: the custom file when the destination has an
  overlay and the file exists, the file of the repository otherwise, with a warning when
  the overlay was there and its file was not.  The result is the messages, the source file
  and the \<open>repo_path\<close> that the rest of the run shows and uses as a key.
\<close>

definition resolve_source :: "config \<Rightarrow> fs \<Rightarrow> str \<Rightarrow> str \<Rightarrow> msg list \<times> path \<times> str" where
  "resolve_source cfg f repo_path dest_path =
     (case map_of (custom_map cfg) dest_path of
        Some custom_path \<Rightarrow>
          if exists f (join (custom_dir cfg) custom_path)
          then ([], join (custom_dir cfg) custom_path, ustr ''custom:'' @ custom_path)
          else ([WarnCustomNotFound (join (custom_dir cfg) custom_path)],
                join (repo_dir cfg) repo_path, repo_path)
      | None \<Rightarrow> ([], join (repo_dir cfg) repo_path, repo_path))"

datatype analysis =
    SkipEntry
  | Abort
  | Identical str str
  | ToSync str str status

definition analyze_entry :: "host \<Rightarrow> config \<Rightarrow> fs \<Rightarrow> str \<times> str \<Rightarrow> msg list \<times> analysis" where
  "analyze_entry h cfg f entry =
     (case entry of (repo_path0, dest_path) \<Rightarrow>
      (case resolve_source cfg f repo_path0 dest_path of
         (ms, source_file, repo_path) \<Rightarrow>
           if \<not> exists f source_file then (ms @ [ErrSourceNotFound repo_path], SkipEntry)
           else if join (home h) dest_path = home h then (ms @ [ErrRefusingHome], Abort)
           else if \<not> is_prefix (home h) (join (home h) dest_path)
           then (ms @ [ErrOutsideHome (join (home h) dest_path)], Abort)
           else if exists f (join (home h) dest_path) then
             (if is_dir f source_file \<or> is_dir f (join (home h) dest_path)
              then (ms, ToSync repo_path dest_path Directory)
              else
                (case (read_text f source_file, read_text f (join (home h) dest_path)) of
                   (Inr source_content, Inr dest_content) \<Rightarrow>
                     if source_content = dest_content then (ms, Identical repo_path dest_path)
                     else (ms, ToSync repo_path dest_path Modified)
                 | _ \<Rightarrow> (ms, ToSync repo_path dest_path Binary)))
           else (ms, ToSync repo_path dest_path New)))"

text \<open>
  The loop over \<open>config.file_map.items()\<close>: \<open>None\<close> is the \<open>return 1\<close> of the safety
  checks, otherwise \<open>files_to_sync\<close> and \<open>files_identical\<close>.
\<close>

fun analyze_all ::
  "host \<Rightarrow> config \<Rightarrow> fs \<Rightarrow> (str \<times> str) list
   \<Rightarrow> msg list \<times> ((str \<times> str \<times> status) list \<times> (str \<times> str) list) option" where
  "analyze_all h cfg f [] = ([], Some ([], []))"
| "analyze_all h cfg f (entry # rest) =
     (case analyze_entry h cfg f entry of
        (ms, Abort) \<Rightarrow> (ms, None)
      | (ms, a) \<Rightarrow>
          (case analyze_all h cfg f rest of
             (ms', None) \<Rightarrow> (ms @ ms', None)
           | (ms', Some (files_to_sync, files_identical)) \<Rightarrow>
               (ms @ ms',
                Some (case a of
                        ToSync repo_path dest_path st \<Rightarrow>
                          ((repo_path, dest_path, st) # files_to_sync, files_identical)
                      | Identical repo_path dest_path \<Rightarrow>
                          (files_to_sync, (repo_path, dest_path) # files_identical)
                      | _ \<Rightarrow> (files_to_sync, files_identical)))))"

section \<open>SyncPlanner: prompts and strategies\<close>

text \<open>
  \<open>str.lower\<close>, for what the program compares the result with: single ASCII letters.
  The characters whose lower case is an ASCII letter are the ASCII capitals and the Kelvin
  sign; every other character is left as it is.
\<close>

definition lower_cp :: "nat \<Rightarrow> nat" where
  "lower_cp c = (if 65 \<le> c \<and> c \<le> 90 then c + 32 else if c = 8490 then 107 else c)"

definition lower :: "str \<Rightarrow> str" where
  "lower s = map lower_cp s"

datatype choice = ChKeep | ChReplace | ChBackupReplace | ChView | ChQuit

text \<open>
  \<open>prompt_user_choice(file_path, True)\<close>: lines are read until one is a choice.
  \<open>None\<close> is the \<open>EOFError\<close> of \<open>input()\<close> when there is no line left.
\<close>

fun prompt_user_choice :: "str list \<Rightarrow> choice option \<times> str list" where
  "prompt_user_choice [] = (None, [])"
| "prompt_user_choice (l # ls) =
     (if strip (lower l) = [] \<or> strip (lower l) = ustr ''k'' then (Some ChKeep, ls)
      else if strip (lower l) = ustr ''r'' then (Some ChReplace, ls)
      else if strip (lower l) = ustr ''b'' then (Some ChBackupReplace, ls)
      else if strip (lower l) = ustr ''v'' then (Some ChView, ls)
      else if strip (lower l) = ustr ''q'' then (Some ChQuit, ls)
      else prompt_user_choice ls)"

text \<open>
  The \<open>while True\<close> loop around the prompt, for one modified file: the diff is shown
  again on \<open>view\<close>.  The loop is inside a \<open>try\<close> with a bare \<open>except\<close>, which also
  catches the \<open>EOFError\<close>: the file is then replaced.
\<close>

datatype review = Quit | Decided action

function review_file :: "str list \<Rightarrow> review \<times> str list" where
  "review_file inp =
     (case prompt_user_choice inp of
        (None, rest) \<Rightarrow> (Decided Replace, rest)
      | (Some ChView, rest) \<Rightarrow> review_file rest
      | (Some ChQuit, rest) \<Rightarrow> (Quit, rest)
      | (Some ChKeep, rest) \<Rightarrow> (Decided Keep, rest)
      | (Some ChReplace, rest) \<Rightarrow> (Decided Replace, rest)
      | (Some ChBackupReplace, rest) \<Rightarrow> (Decided BackupReplace, rest))"
  by pat_completeness auto
termination
proof (relation "measure length")
  show "wf (measure length)" by simp
next
  fix inp :: "str list" and x rest y
  assume a: "(x, rest) = prompt_user_choice inp" "x = Some y" "y = ChView"
  have "\<And>c r. prompt_user_choice inp = (Some c, r) \<Longrightarrow> length r < length inp"
    by (induction inp) (auto split: if_splits)
  with a show "(rest, inp) \<in> measure length" by (metis in_measure)
qed

text \<open>The source file as the second and third pass find it again, from the key.\<close>

definition source_of :: "config \<Rightarrow> str \<Rightarrow> path" where
  "source_of cfg repo_path =
     (if startswith repo_path (ustr ''custom:'') then join (custom_dir cfg) (drop 7 repo_path)
      else join (repo_dir cfg) repo_path)"

datatype plan =
    PlanQuit
  | PlanDeclined
  | PlanRaise exn
  | PlanActions "(str \<times> action) list"

text \<open>
  The preview loop over \<open>files_to_sync\<close>.  \<open>actions\<close> is a dict keyed by
  \<open>repo_path\<close>.  \<open>None\<close> is the \<open>return 0\<close> after \<open>quit\<close>; the lines read are
  used up.
\<close>

fun plan_preview ::
  "host \<Rightarrow> config \<Rightarrow> fs \<Rightarrow> strategy \<Rightarrow> (str \<times> str \<times> status) list \<Rightarrow> (str \<times> action) list
   \<Rightarrow> str list \<Rightarrow> (str \<times> action) list option \<times> str list" where
  "plan_preview h cfg f strat [] actions inp = (Some actions, inp)"
| "plan_preview h cfg f strat ((repo_path, dest_path, st) # rest) actions inp =
     (if st = Modified \<and> strat = Ask then
        (case (read_text f (source_of cfg repo_path), read_text f (join (home h) dest_path)) of
           (Inr source_content, Inr dest_content) \<Rightarrow>
             (case review_file inp of
                (Quit, inp') \<Rightarrow> (None, inp')
              | (Decided a, inp') \<Rightarrow>
                  plan_preview h cfg f strat rest (AList.update repo_path a actions) inp')
         | _ \<Rightarrow> plan_preview h cfg f strat rest (AList.update repo_path Replace actions) inp)
      else
        plan_preview h cfg f strat rest
          (AList.update repo_path (if strat = SkipAll then Keep else Replace) actions) inp)"

text \<open>The confirmation before anything is applied, asked when the strategy is \<open>ask\<close>.\<close>

definition plan_interactive ::
  "host \<Rightarrow> config \<Rightarrow> strategy \<Rightarrow> (str \<times> str \<times> status) list \<Rightarrow> world \<Rightarrow> plan \<times> world" where
  "plan_interactive h cfg strat files_to_sync w =
     (case plan_preview h cfg (fs w) strat files_to_sync [] (stdin w) of
        (None, inp) \<Rightarrow> (PlanQuit, w\<lparr>stdin := inp\<rparr>)
      | (Some actions, inp) \<Rightarrow>
          if strat = Ask then
            (case inp of
               [] \<Rightarrow> (PlanRaise EOFError, w\<lparr>stdin := inp\<rparr>)
             | confirm # inp' \<Rightarrow>
                 if strip (lower confirm) \<noteq> ustr ''y'' then (PlanDeclined, w\<lparr>stdin := inp'\<rparr>)
                 else (PlanActions actions, w\<lparr>stdin := inp'\<rparr>))
          else (PlanActions actions, w\<lparr>stdin := inp\<rparr>))"

text \<open>Without preview the strategy is applied to every file.\<close>

definition plan_fixed :: "strategy \<Rightarrow> (str \<times> str \<times> status) list \<Rightarrow> (str \<times> action) list" where
  "plan_fixed strat files_to_sync =
     foldl (\<lambda>actions (repo_path, dest_path, st).
              AList.update repo_path (if strat \<noteq> SkipAll then Replace else Keep) actions)
       [] files_to_sync"

section \<open>SyncApplier: backup and overwrite\<close>

text \<open>
  The backup of one decision that is not \<open>keep\<close>: the destination as it is now is copied
  to the same relative path below the backup directory.
\<close>

definition backup_wanted :: "bool \<Rightarrow> status \<Rightarrow> action \<Rightarrow> bool" where
  "backup_wanted force st a =
     ((a = BackupReplace \<or> a = Replace) \<and> (a = BackupReplace \<or> (st = Modified \<and> \<not> force)))"

definition backup_copy :: "path \<Rightarrow> path \<Rightarrow> world \<Rightarrow> exn option \<times> world" where
  "backup_copy dest_file backup_path w =
     (if is_dir (fs w) dest_file
      then seq (\<lambda>w1. if exists (fs w1) backup_path then do_rmtree backup_path w1 else skip w1)
               (do_copytree dest_file backup_path) w
      else do_copy2 dest_file backup_path w)"

definition backup_existing ::
  "path \<Rightarrow> bool \<Rightarrow> str \<Rightarrow> path \<Rightarrow> status \<Rightarrow> action \<Rightarrow> world \<Rightarrow> exn option \<times> world" where
  "backup_existing bdir force dest_path dest_file st a w =
     (if exists (fs w) dest_file \<and> backup_wanted force st a
      then seq (do_mkdir (butlast (join bdir dest_path)))
               (backup_copy dest_file (join bdir dest_path)) w
      else skip w)"

definition overwrite :: "path \<Rightarrow> path \<Rightarrow> world \<Rightarrow> exn option \<times> world" where
  "overwrite source_file dest_file =
     seq (do_mkdir (butlast dest_file))
         (\<lambda>w. if is_dir (fs w) source_file
              then seq (\<lambda>w1. if exists (fs w1) dest_file then do_rmtree dest_file w1 else skip w1)
                       (do_copytree source_file dest_file) w
              else do_copy2 source_file dest_file w)"

definition apply_entry ::
  "host \<Rightarrow> config \<Rightarrow> path \<Rightarrow> bool \<Rightarrow> str \<Rightarrow> str \<Rightarrow> status \<Rightarrow> action \<Rightarrow> world
   \<Rightarrow> exn option \<times> world" where
  "apply_entry h cfg bdir force repo_path dest_path st a =
     seq (backup_existing bdir force dest_path (join (home h) dest_path) st a)
         (overwrite (source_of cfg repo_path) (join (home h) dest_path))"

text \<open>
  The loop that applies the decisions: the error that ended it, if any, the list
  \<open>files_synced\<close>, and the world.  A key without a decision is kept.
\<close>

fun apply_all ::
  "host \<Rightarrow> config \<Rightarrow> path \<Rightarrow> bool \<Rightarrow> (str \<times> action) list \<Rightarrow> (str \<times> str \<times> status) list
   \<Rightarrow> (str \<times> str) list \<Rightarrow> world \<Rightarrow> exn option \<times> (str \<times> str) list \<times> world" where
  "apply_all h cfg bdir force actions [] files_synced w = (None, files_synced, w)"
| "apply_all h cfg bdir force actions ((repo_path, dest_path, st) # rest) files_synced w =
     (case (case map_of actions repo_path of None \<Rightarrow> Keep | Some a \<Rightarrow> a) of
        Keep \<Rightarrow> apply_all h cfg bdir force actions rest files_synced w
      | a \<Rightarrow>
          (case apply_entry h cfg bdir force repo_path dest_path st a w of
             (Some e, w1) \<Rightarrow> (Some e, files_synced, w1)
           | (None, w1) \<Rightarrow>
               apply_all h cfg bdir force actions rest (files_synced @ [(repo_path, dest_path)])
                 w1))"

section \<open>\<open>sync_from_repo\<close>\<close>

definition sync_from_repo ::
  "host \<Rightarrow> config \<Rightarrow> path option \<Rightarrow> bool \<Rightarrow> strategy \<Rightarrow> bool \<Rightarrow> bool \<Rightarrow> world
   \<Rightarrow> int result \<times> world" where
  "sync_from_repo h cfg backup_dir_arg preview strat force process_templates w =
     (let bdir = (case backup_dir_arg of None \<Rightarrow> backup_dir cfg | Some d \<Rightarrow> d) in
      case do_mkdir bdir w of
        (Some e, w1) \<Rightarrow> (Raise e, w1)
      | (None, w1) \<Rightarrow>
          (case analyze_all h cfg (fs w1) (file_map cfg) of
             (ms, None) \<Rightarrow> (Return 1, warn ms w1)
           | (ms, Some (files_to_sync, files_identical)) \<Rightarrow>
               if files_to_sync = [] then (Return 0, warn ms w1)
               else
                 (case (if (if force then False else preview) \<and> \<not> force
                        then plan_interactive h cfg strat files_to_sync (warn ms w1)
                        else (PlanActions (plan_fixed strat files_to_sync), warn ms w1)) of
                    (PlanQuit, w2) \<Rightarrow> (Return 0, w2)
                  | (PlanDeclined, w2) \<Rightarrow> (Return 0, w2)
                  | (PlanRaise e, w2) \<Rightarrow> (Raise e, w2)
                  | (PlanActions actions, w2) \<Rightarrow>
                      (case apply_all h cfg bdir force actions files_to_sync [] w2 of
                         (Some e, files_synced, w3) \<Rightarrow> (Raise e, w3)
                       | (None, files_synced, w3) \<Rightarrow>
                           if process_templates \<and> files_synced \<noteq> []
                           then (case process_synced_templates h files_synced w3 of
                                   (templates_processed, w4) \<Rightarrow> (Return 0, w4))
                           else (Return 0, w3)))))"

section \<open>The validation pass and \<open>main\<close>\<close>

definition new_config :: "host \<Rightarrow> path \<Rightarrow> config" where
  "new_config h config_file =
     \<lparr>dotfiles = [], file_map = [], custom_map = [],
      repo_dir = butlast config_file,
      backup_dir = home h @ [ustr ''.config'', ustr ''dotfiles.bak''],
      custom_dir = home h @ [ustr ''.config'', ustr ''dotfiles.custom'']\<rparr>"

definition validate :: "config \<Rightarrow> fs \<Rightarrow> verr list" where
  "validate cfg f =
     (if dotfiles cfg = [] then [NoDotfiles] else [])
     @ (if file_map cfg = [] then [NoFileMappings] else [])
     @ map SourceNotFound
         (filter (\<lambda>repo_path. \<not> exists f (join (repo_dir cfg) repo_path)) (dotfiles cfg))
     @ map (\<lambda>(dest_path, custom_path). CustomNotFound custom_path)
         (filter (\<lambda>(dest_path, custom_path). \<not> exists f (join (custom_dir cfg) custom_path))
            (custom_map cfg))
     @ (if distinct (dotfiles cfg) then [] else [DuplicateEntries])"

text \<open>
  \<open>main\<close> up to the point where it hands the configuration to the action that the
  command line selects: \<open>run_action\<close> stands for that action, whichever it is.  The
  mapping file is read as a whole and split into lines.  Every exception ends in exit
  status 1.
\<close>

definition main ::
  "(config \<Rightarrow> world \<Rightarrow> int \<times> world) \<Rightarrow> host \<Rightarrow> path \<Rightarrow> world \<Rightarrow> int \<times> world" where
  "main run_action h config_file w =
     (case read_text (fs w) config_file of
        Inl e \<Rightarrow> (1, warn [ErrException] w)
      | Inr content \<Rightarrow>
          (case parse_config (new_config h config_file) (split_on 10 content) of
             (ms, cfg, Some e) \<Rightarrow> (1, warn (ms @ [ErrException]) w)
           | (ms, cfg, None) \<Rightarrow>
               if validate cfg (fs w) \<noteq> []
               then (1, warn (ms @ map ErrValidation (validate cfg (fs w))) w)
               else run_action cfg (warn ms w)))"

section \<open>What the specification says, as predicates\<close>

text \<open>
  The words of a regular expression: \<open>matches r w\<close> says that the whole of \<open>w\<close> is a
  word of \<open>r\<close>.  The matcher above is proved against it.
\<close>

inductive matches :: "rx \<Rightarrow> str \<Rightarrow> bool" where
  m_eps: "matches Eps []"
| m_cls: "P c \<Longrightarrow> matches (Cls P) [c]"
| m_alt_l: "matches r w \<Longrightarrow> matches (Alt r s) w"
| m_alt_r: "matches s w \<Longrightarrow> matches (Alt r s) w"
| m_seq: "matches r u \<Longrightarrow> matches s v \<Longrightarrow> matches (Seq r s) (u @ v)"
| m_star_nil: "matches (Star r) []"
| m_star_step: "matches r u \<Longrightarrow> matches (Star r) v \<Longrightarrow> matches (Star r) (u @ v)"

text \<open>A name: one leading letter or underscore, then letters, digits or underscores.\<close>

definition is_var_name :: "str \<Rightarrow> bool" where
  "is_var_name n = (case n of [] \<Rightarrow> False | c # cs \<Rightarrow> name_start c \<and> list_all name_char cs)"

text \<open>The literal text \<^verbatim>\<open>${N}\<close> occurs in a content.\<close>

definition occurs_var :: "str \<Rightarrow> str \<Rightarrow> bool" where
  "occurs_var n content = (\<exists>pre post. content = pre @ ustr ''${'' @ n @ ustr ''}'' @ post)"


text \<open>
  The dangerous contents, as the specification lists them: a shell metacharacter, a command
  substitution, a backtick, \<open>eval\<close> or \<open>exec\<close> before white space, a pipe to a
  shell, a redirection into a device path, \<open>rm -rf\<close>.
\<close>

definition dangerous_text :: "str \<Rightarrow> bool" where
  "dangerous_text s =
     ((\<exists>c \<in> set s. metachar c)
      \<or> (\<exists>pre post. s = pre @ ustr ''$('' @ post)
      \<or> (\<exists>pre post. s = pre @ ustr ''`'' @ post)
      \<or> (\<exists>pre w post. isspace w \<and> s = pre @ ustr ''eval'' @ [w] @ post)
      \<or> (\<exists>pre w post. isspace w \<and> s = pre @ ustr ''exec'' @ [w] @ post)
      \<or> (\<exists>pre ws post. list_all isspace ws \<and> s = pre @ ustr ''|'' @ ws @ ustr ''sh'' @ post)
      \<or> (\<exists>pre ws post. list_all isspace ws \<and> s = pre @ ustr ''>'' @ ws @ ustr ''/dev/'' @ post)
      \<or> (\<exists>pre ws post. ws \<noteq> [] \<and> list_all isspace ws
              \<and> s = pre @ ustr ''rm'' @ ws @ ustr ''-rf'' @ post))"

text \<open>A file system that holds one file, for the examples.\<close>

definition one_file :: "path \<Rightarrow> bytes \<Rightarrow> fs" where
  "one_file p b = (\<lambda>q. if q = p then Some (File b) else None)"

text \<open>
  A well-formed line of the mapping file, as the specification reads it:
  \<open>repoPath:destPath\<close>, split at the first colon, or \<open>custom:customName:destPath\<close>,
  split at the last one, with non-empty fields, surrounding white space aside.
\<close>

datatype mapping_line = Regular str str | Overlay str str

fun line_form :: "str \<Rightarrow> mapping_line \<Rightarrow> bool" where
  "line_form raw (Regular repo dest) =
     (\<exists>r d. strip raw = r @ ustr '':'' @ d \<and> 58 \<notin> set r
        \<and> \<not> startswith (strip raw) (ustr ''#'') \<and> \<not> startswith (strip raw) (ustr ''custom:'')
        \<and> repo = strip r \<and> dest = strip d \<and> repo \<noteq> [] \<and> dest \<noteq> [])"
| "line_form raw (Overlay name dest) =
     (\<exists>c d. strip raw = ustr ''custom:'' @ c @ ustr '':'' @ d \<and> 58 \<notin> set d
        \<and> name = strip c \<and> dest = strip d \<and> name \<noteq> [] \<and> dest \<noteq> [])"

text \<open>A path has a \<open>..\<close> segment.\<close>

definition dotdot_segment :: "str \<Rightarrow> bool" where
  "dotdot_segment p = (ustr ''..'' \<in> set (split_on 47 p))"

text \<open>The lines that the safety rule is about.\<close>

fun offending :: "mapping_line \<Rightarrow> bool" where
  "offending (Regular repo dest) =
     (dest = ustr ''/'' \<or> dest = ustr ''~'' \<or> dotdot_segment repo \<or> dotdot_segment dest)"
| "offending (Overlay name dest) =
     (dest = ustr ''/'' \<or> dest = ustr ''~'' \<or> dotdot_segment name \<or> dotdot_segment dest)"

text \<open>A world that holds one mapping file, for the examples.\<close>

definition conf_world :: "bytes \<Rightarrow> world" where
  "conf_world b = \<lparr>fs = one_file [ustr ''dotfiles.conf''] b, ops = [], stdin = [], stderr = [],
                    tmpnames = []\<rparr>"

section \<open>The matcher agrees with the words of a pattern\<close>

inductive_cases matches_NomatchE: "matches Nomatch w"
inductive_cases matches_EpsE: "matches Eps w"
inductive_cases matches_ClsE: "matches (Cls P) w"
inductive_cases matches_AltE: "matches (Alt r s) w"
inductive_cases matches_SeqE: "matches (Seq r s) w"

lemma nullable_if_matches_nil: "matches r w \<Longrightarrow> w = [] \<Longrightarrow> nullable r"
  by (induction rule: matches.induct) auto

lemma matches_nil_if_nullable: "nullable r \<Longrightarrow> matches r []"
proof (induction r)
  case (Seq r s)
  then have "matches r []" "matches s []" by auto
  then have "matches (Seq r s) ([] @ [])" by (rule m_seq)
  then show ?case by simp
qed (auto intro: matches.intros)

lemma deriv_complete: "matches r x \<Longrightarrow> x = c # w \<Longrightarrow> matches (deriv c r) w"
proof (induction arbitrary: w rule: matches.induct)
  case (m_seq r u s v)
  show ?case
  proof (cases u)
    case Nil
    with m_seq have "nullable r" "matches (deriv c s) w"
      by (auto intro: nullable_if_matches_nil)
    then show ?thesis by (auto intro: matches.intros)
  next
    case (Cons a u')
    with m_seq have "matches (deriv c r) u'" "w = u' @ v" by auto
    with m_seq(2) have "matches (Seq (deriv c r) s) w" by (auto intro: matches.intros)
    then show ?thesis by (auto intro: matches.intros)
  qed
next
  case (m_star_step r u v)
  show ?case
  proof (cases u)
    case Nil
    with m_star_step show ?thesis by auto
  next
    case (Cons a u')
    with m_star_step have "matches (deriv c r) u'" "w = u' @ v" by auto
    with m_star_step(2) show ?thesis by (auto intro: matches.intros)
  qed
qed (auto intro: matches.intros)

lemma deriv_sound: "matches (deriv c r) w \<Longrightarrow> matches r (c # w)"
proof (induction r arbitrary: w)
  case Nomatch
  then show ?case by (auto elim: matches_NomatchE)
next
  case Eps
  then show ?case by (auto elim: matches_NomatchE)
next
  case (Cls P)
  then show ?case
    by (auto split: if_splits elim!: matches_NomatchE matches_EpsE intro: matches.intros)
next
  case (Alt r s)
  then show ?case by (auto elim!: matches_AltE intro: matches.intros)
next
  case (Seq r s)
  have seq_case: "matches (Seq (deriv c r) s) w \<Longrightarrow> matches (Seq r s) (c # w)"
  proof -
    assume "matches (Seq (deriv c r) s) w"
    then obtain u v where "w = u @ v" "matches (deriv c r) u" "matches s v"
      by (auto elim: matches_SeqE)
    with Seq.IH(1) have "matches r (c # u)" by simp
    from this \<open>matches s v\<close> have "matches (Seq r s) ((c # u) @ v)" by (rule m_seq)
    with \<open>w = u @ v\<close> show ?thesis by simp
  qed
  show ?case
  proof (cases "nullable r")
    case True
    with Seq.prems have "matches (Seq (deriv c r) s) w \<or> matches (deriv c s) w"
      by (auto elim: matches_AltE)
    then show ?thesis
    proof
      assume "matches (Seq (deriv c r) s) w" then show ?thesis by (rule seq_case)
    next
      assume "matches (deriv c s) w"
      with Seq.IH(2) have "matches s (c # w)" by simp
      moreover from True have "matches r []" by (rule matches_nil_if_nullable)
      ultimately have "matches (Seq r s) ([] @ c # w)" by (intro m_seq)
      then show ?thesis by simp
    qed
  next
    case False
    with Seq.prems show ?thesis by (auto intro: seq_case)
  qed
next
  case (Star r)
  then obtain u v where "w = u @ v" "matches (deriv c r) u" "matches (Star r) v"
    by (auto elim: matches_SeqE)
  with Star.IH have "matches r (c # u)" by simp
  from this \<open>matches (Star r) v\<close> have "matches (Star r) ((c # u) @ v)" by (rule m_star_step)
  with \<open>w = u @ v\<close> show ?case by simp
qed

lemma rx_prefix_iff: "rx_prefix r s \<longleftrightarrow> (\<exists>u v. s = u @ v \<and> matches r u)"
proof (induction s arbitrary: r)
  case Nil
  then show ?case
    by (auto intro: matches_nil_if_nullable nullable_if_matches_nil)
next
  case (Cons c s)
  show ?case
  proof
    assume "rx_prefix r (c # s)"
    then have "nullable r \<or> rx_prefix (deriv c r) s" by simp
    then show "\<exists>u v. c # s = u @ v \<and> matches r u"
    proof
      assume "nullable r"
      then have "matches r []" by (rule matches_nil_if_nullable)
      then have "c # s = [] @ (c # s) \<and> matches r []" by simp
      then show ?thesis by blast
    next
      assume "rx_prefix (deriv c r) s"
      with Cons.IH obtain u v where "s = u @ v" "matches (deriv c r) u" by blast
      then have "c # s = (c # u) @ v" "matches r (c # u)" by (auto intro: deriv_sound)
      then show ?thesis by blast
    qed
  next
    assume "\<exists>u v. c # s = u @ v \<and> matches r u"
    then obtain u v where uv: "c # s = u @ v" "matches r u" by blast
    show "rx_prefix r (c # s)"
    proof (cases u)
      case Nil
      with uv have "nullable r" by (auto intro: nullable_if_matches_nil)
      then show ?thesis by simp
    next
      case (Cons a u')
      with uv have "s = u' @ v" "matches (deriv c r) u'" by (auto intro: deriv_complete)
      with Cons.IH have "rx_prefix (deriv c r) s" by blast
      then show ?thesis by simp
    qed
  qed
qed

lemma rx_search_iff: "rx_search r s \<longleftrightarrow> (\<exists>pre u post. s = pre @ u @ post \<and> matches r u)"
proof (induction s)
  case Nil
  then show ?case by (auto intro: matches_nil_if_nullable nullable_if_matches_nil)
next
  case (Cons c s)
  show ?case
  proof
    assume "rx_search r (c # s)"
    then have "rx_prefix r (c # s) \<or> rx_search r s" by simp
    then show "\<exists>pre u post. c # s = pre @ u @ post \<and> matches r u"
    proof
      assume "rx_prefix r (c # s)"
      then obtain u v where "c # s = u @ v" "matches r u" unfolding rx_prefix_iff by blast
      then have "c # s = [] @ u @ v \<and> matches r u" by simp
      then show ?thesis by blast
    next
      assume "rx_search r s"
      with Cons.IH obtain pre u post where "s = pre @ u @ post" "matches r u" by blast
      then have "c # s = (c # pre) @ u @ post \<and> matches r u" by simp
      then show ?thesis by blast
    qed
  next
    assume "\<exists>pre u post. c # s = pre @ u @ post \<and> matches r u"
    then obtain pre u post where d: "c # s = pre @ u @ post" "matches r u" by blast
    show "rx_search r (c # s)"
    proof (cases pre)
      case Nil
      with d have "rx_prefix r (c # s)" unfolding rx_prefix_iff by auto
      then show ?thesis by simp
    next
      case (Cons a pre')
      with d have "s = pre' @ u @ post" by simp
      with d(2) Cons.IH have "rx_search r s" by blast
      then show ?thesis by simp
    qed
  qed
qed

section \<open>Template detection\<close>

lemma startswith_iff: "startswith s p \<longleftrightarrow> (\<exists>t. s = p @ t)"
  by (induction s p rule: startswith.induct) auto

lemma contains_iff: "contains s p \<longleftrightarrow> (\<exists>pre post. s = pre @ p @ post)"
proof (induction s)
  case Nil
  then show ?case by auto
next
  case (Cons c s)
  show ?case
  proof
    assume "contains (c # s) p"
    then have "startswith (c # s) p \<or> contains s p" by simp
    then show "\<exists>pre post. c # s = pre @ p @ post"
    proof
      assume "startswith (c # s) p"
      then obtain t where "c # s = [] @ p @ t" by (auto simp: startswith_iff)
      then show ?thesis by blast
    next
      assume "contains s p"
      with Cons.IH obtain pre post where "s = pre @ p @ post" by blast
      then have "c # s = (c # pre) @ p @ post" by simp
      then show ?thesis by blast
    qed
  next
    assume "\<exists>pre post. c # s = pre @ p @ post"
    then obtain pre post where d: "c # s = pre @ p @ post" by blast
    show "contains (c # s) p"
    proof (cases pre)
      case Nil
      with d have "startswith (c # s) p" by (auto simp: startswith_iff)
      then show ?thesis by simp
    next
      case (Cons a pre')
      with d have "s = pre' @ p @ post" by simp
      with Cons.IH have "contains s p" by blast
      then show ?thesis by simp
    qed
  qed
qed

lemma is_var_name_chars: "is_var_name n \<Longrightarrow> c \<in> set n \<Longrightarrow> name_char c"
  by (cases n) (auto simp: is_var_name_def name_char_def list_all_iff)

lemma not_name_char_punct [simp]: "\<not> name_char 36" "\<not> name_char 123" "\<not> name_char 125"
  by (simp_all add: name_char_def name_start_def)

lemma match_var_iff:
  "match_var s = Some (n, rest) \<longleftrightarrow> is_var_name n \<and> s = 36 # 123 # n @ 125 # rest"
proof
  assume m: "match_var s = Some (n, rest)"
  then obtain a b r where s: "s = a # b # r"
    by (cases s; cases "tl s") (auto simp: match_var_def)
  let ?name = "takeWhile name_char r" and ?rest = "dropWhile name_char r"
  from m s have "(if a = 36 \<and> b = 123 \<and> ?name \<noteq> [] \<and> name_start (hd ?name)
                      \<and> startswith ?rest [125]
                   then Some (?name, tl ?rest) else None) = Some (n, rest)"
    by (simp add: match_var_def Let_def)
  then have c: "a = 36" "b = 123" "?name \<noteq> []" "name_start (hd ?name)"
    "startswith ?rest [125]" "n = ?name" "rest = tl ?rest"
    by (simp_all split: if_splits)
  from c(5) have "?rest = 125 # tl ?rest" by (auto simp: startswith_iff)
  with c have r: "r = n @ 125 # rest" by (metis takeWhile_dropWhile_id)
  have "list_all name_char ?name" by (simp add: list_all_iff) (meson set_takeWhileD)
  with c(3,4,6) have "is_var_name n"
    by (cases ?name) (auto simp: is_var_name_def)
  with s c(1,2) r show "is_var_name n \<and> s = 36 # 123 # n @ 125 # rest" by simp
next
  assume a: "is_var_name n \<and> s = 36 # 123 # n @ 125 # rest"
  then have all: "\<forall>c \<in> set n. name_char c" by (auto intro: is_var_name_chars)
  then have tw: "takeWhile name_char (n @ 125 # rest) = n"
    by simp
  from all have dw: "dropWhile name_char (n @ 125 # rest) = 125 # rest"
    by simp
  from a have "n \<noteq> []" "name_start (hd n)"
    by (auto simp: is_var_name_def split: list.splits)
  with a tw dw show "match_var s = Some (n, rest)"
    by (simp add: match_var_def)
qed

lemma findall_vars_skip: "findall_vars k s = findall_vars 0 (drop k s)"
proof (induction k s rule: findall_vars.induct)
  case (1 skip)
  then show ?case by simp
next
  case (2 k c s)
  then show ?case by simp
next
  case (3 c s)
  then show ?case by simp
qed

lemma findall_vars_match:
  "match_var (c # s) = Some (n, rest) \<Longrightarrow> findall_vars 0 (c # s) = n # findall_vars 0 rest"
proof -
  assume m: "match_var (c # s) = Some (n, rest)"
  then have "s = 123 # n @ 125 # rest" by (simp add: match_var_iff)
  then have "drop (length n + 2) s = rest" by simp
  then have "findall_vars (length n + 2) s = findall_vars 0 rest"
    using findall_vars_skip[of "length n + 2" s] by simp
  with m show ?thesis by simp
qed

lemma findall_vars_nomatch:
  "match_var (c # s) = None \<Longrightarrow> findall_vars 0 (c # s) = findall_vars 0 s"
  by simp

lemma var_name_sep:
  assumes "is_var_name m" "is_var_name n" "m @ 125 # x = n @ 125 # y"
  shows "m = n \<and> x = y"
proof -
  have "\<forall>c \<in> set m. name_char c" "\<forall>c \<in> set n. name_char c"
    using assms(1,2) by (auto intro: is_var_name_chars)
  then have "takeWhile name_char (m @ 125 # x) = m" "takeWhile name_char (n @ 125 # y) = n"
    by simp_all
  with assms(3) have "m = n" by simp
  with assms(3) show ?thesis by simp
qed

lemma occ_later:
  assumes n: "is_var_name n"
    and eq: "pre @ 36 # x = 36 # 123 # n @ 125 # rest"
    and ne: "pre \<noteq> []"
  shows "\<exists>pre'. pre = 36 # 123 # n @ 125 # pre' \<and> rest = pre' @ 36 # x"
proof -
  let ?A = "36 # 123 # n @ [125]"
  have no: "36 \<notin> set (tl ?A)" using n by (auto dest: is_var_name_chars)
  from eq have "pre @ 36 # x = ?A @ rest" by simp
  then obtain us where
    "(pre = ?A @ us \<and> us @ 36 # x = rest) \<or> (pre @ us = ?A \<and> 36 # x = us @ rest)"
    unfolding append_eq_append_conv2 by blast
  then show ?thesis
  proof
    assume "pre = ?A @ us \<and> us @ 36 # x = rest"
    then show ?thesis by auto
  next
    assume c: "pre @ us = ?A \<and> 36 # x = us @ rest"
    show ?thesis
    proof (cases us)
      case Nil
      with c show ?thesis by auto
    next
      case (Cons a us')
      with c have "a = 36" by simp
      with c Cons have "?A = pre @ 36 # us'" by simp
      with ne have "36 \<in> set (tl ?A)" by (cases pre) auto
      with no show ?thesis by blast
    qed
  qed
qed

lemma findall_vars_set:
  "set (findall_vars 0 s) = {n. is_var_name n \<and> occurs_var n s}"
proof (induction s rule: length_induct)
  case (1 s)
  show ?case
  proof (cases s)
    case Nil
    then show ?thesis by (auto simp: occurs_var_def)
  next
    case (Cons c t)
    show ?thesis
    proof (cases "match_var (c # t)")
      case None
      have "occurs_var n (c # t) \<longleftrightarrow> occurs_var n t" if "is_var_name n" for n
      proof
        assume "occurs_var n (c # t)"
        then obtain pre post where d: "c # t = pre @ 36 # 123 # n @ 125 # post"
          by (auto simp: occurs_var_def)
        show "occurs_var n t"
        proof (cases pre)
          case Nil
          with d that have "match_var (c # t) = Some (n, post)" by (simp add: match_var_iff)
          with None show ?thesis by simp
        next
          case (Cons a pre')
          with d have "t = pre' @ ustr ''${'' @ n @ ustr ''}'' @ post" by simp
          then show ?thesis unfolding occurs_var_def by blast
        qed
      next
        assume "occurs_var n t"
        then obtain pre post where "t = pre @ ustr ''${'' @ n @ ustr ''}'' @ post"
          by (auto simp: occurs_var_def)
        then have "c # t = (c # pre) @ ustr ''${'' @ n @ ustr ''}'' @ post" by simp
        then show "occurs_var n (c # t)" unfolding occurs_var_def by blast
      qed
      moreover from 1 Cons have "set (findall_vars 0 t) = {n. is_var_name n \<and> occurs_var n t}"
        by simp
      ultimately show ?thesis using None Cons by (auto simp: findall_vars_nomatch)
    next
      case (Some a)
      then obtain m rest where m: "match_var (c # t) = Some (m, rest)" by (cases a) auto
      then have mv: "is_var_name m" and ct: "c # t = 36 # 123 # m @ 125 # rest"
        by (auto simp: match_var_iff)
      from ct have "length rest < length s" using Cons by simp
      with 1 have IH: "set (findall_vars 0 rest) = {n. is_var_name n \<and> occurs_var n rest}"
        by blast
      have "occurs_var n (c # t) \<longleftrightarrow> n = m \<or> occurs_var n rest" if nv: "is_var_name n" for n
      proof
        assume "occurs_var n (c # t)"
        then obtain pre post where d: "c # t = pre @ 36 # 123 # n @ 125 # post"
          by (auto simp: occurs_var_def)
        show "n = m \<or> occurs_var n rest"
        proof (cases "pre = []")
          case True
          with d ct have "n @ 125 # post = m @ 125 # rest" by simp
          with nv mv show ?thesis by (auto dest: var_name_sep)
        next
          case False
          from d ct have "pre @ 36 # (123 # n @ 125 # post) = 36 # 123 # m @ 125 # rest"
            by simp
          from occ_later[OF mv this False]
          obtain pre' where "rest = pre' @ 36 # 123 # n @ 125 # post" by blast
          then have "rest = pre' @ ustr ''${'' @ n @ ustr ''}'' @ post" by simp
          then show ?thesis unfolding occurs_var_def by blast
        qed
      next
        assume "n = m \<or> occurs_var n rest"
        then show "occurs_var n (c # t)"
        proof
          assume "n = m"
          with ct have "c # t = [] @ ustr ''${'' @ n @ ustr ''}'' @ rest" by simp
          then show ?thesis unfolding occurs_var_def by blast
        next
          assume "occurs_var n rest"
          then obtain pre post where "rest = pre @ ustr ''${'' @ n @ ustr ''}'' @ post"
            by (auto simp: occurs_var_def)
          with ct have "c # t = (36 # 123 # m @ 125 # pre) @ ustr ''${'' @ n @ ustr ''}'' @ post"
            by simp
          then show ?thesis unfolding occurs_var_def by blast
        qed
      qed
      with IH mv show ?thesis using Cons findall_vars_match[OF m] by auto
    qed
  qed
qed

section \<open>Environment files\<close>

lemma matches_Eps_iff [simp]: "matches Eps w \<longleftrightarrow> w = []"
  by (auto elim: matches_EpsE intro: matches.intros)

lemma matches_Cls_iff [simp]: "matches (Cls P) w \<longleftrightarrow> (\<exists>c. w = [c] \<and> P c)"
  by (auto elim: matches_ClsE intro: matches.intros)

lemma matches_Seq_iff: "matches (Seq r s) w \<longleftrightarrow> (\<exists>u v. w = u @ v \<and> matches r u \<and> matches s v)"
proof
  assume "matches (Seq r s) w"
  then show "\<exists>u v. w = u @ v \<and> matches r u \<and> matches s v"
    by (rule matches_SeqE) blast
next
  assume "\<exists>u v. w = u @ v \<and> matches r u \<and> matches s v"
  then show "matches (Seq r s) w" by (auto intro: matches.intros)
qed

lemma Lit_simps: "Lit [] = Eps" "Lit (c # s) = Seq (Cls (\<lambda>x. x = of_char c)) (Lit s)"
  by (simp_all add: Lit_def)

lemma matches_Lit_iff [simp]: "matches (Lit s) w \<longleftrightarrow> w = ustr s"
  by (induction s arbitrary: w) (auto simp: matches_Seq_iff Lit_simps)

lemma matches_Star_Cls_aux: "matches r w \<Longrightarrow> r = Star (Cls P) \<Longrightarrow> list_all P w"
  by (induction rule: matches.induct) auto

lemma matches_Star_Cls_iff [simp]: "matches (Star (Cls P)) w \<longleftrightarrow> list_all P w"
proof
  show "matches (Star (Cls P)) w \<Longrightarrow> list_all P w" by (rule matches_Star_Cls_aux) simp_all
next
  show "list_all P w \<Longrightarrow> matches (Star (Cls P)) w"
  proof (induction w)
    case Nil
    show ?case by (rule m_star_nil)
  next
    case (Cons c w)
    then have "matches (Cls P) [c]" "matches (Star (Cls P)) w" by auto
    then have "matches (Star (Cls P)) ([c] @ w)" by (rule m_star_step)
    then show ?case by simp
  qed
qed

lemma matches_Plus_Cls_iff [simp]: "matches (Plus (Cls P)) w \<longleftrightarrow> w \<noteq> [] \<and> list_all P w"
proof (cases w)
  case Nil
  then show ?thesis by (simp add: Plus_def matches_Seq_iff)
next
  case (Cons a t)
  have "(\<exists>u v. a # t = u @ v \<and> (\<exists>c. u = [c] \<and> P c) \<and> list_all P v) \<longleftrightarrow> P a \<and> list_all P t"
  proof
    assume "\<exists>u v. a # t = u @ v \<and> (\<exists>c. u = [c] \<and> P c) \<and> list_all P v"
    then show "P a \<and> list_all P t" by auto
  next
    assume "P a \<and> list_all P t"
    then have "a # t = [a] @ t \<and> (\<exists>c. [a] = [c] \<and> P c) \<and> list_all P t" by simp
    then show "\<exists>u v. a # t = u @ v \<and> (\<exists>c. u = [c] \<and> P c) \<and> list_all P v" by blast
  qed
  with Cons show ?thesis by (simp add: Plus_def matches_Seq_iff)
qed

lemma rx_search_Cls: "rx_search (Cls P) s \<longleftrightarrow> (\<exists>c \<in> set s. P c)"
proof
  assume "rx_search (Cls P) s"
  then obtain pre c post where "s = pre @ [c] @ post" "P c"
    by (auto simp: rx_search_iff)
  then show "\<exists>c \<in> set s. P c" by auto
next
  assume "\<exists>c \<in> set s. P c"
  then obtain c where "c \<in> set s" "P c" by blast
  then obtain pre post where "s = pre @ c # post" by (auto simp: in_set_conv_decomp)
  with \<open>P c\<close> have "s = pre @ [c] @ post \<and> matches (Cls P) [c]" by simp
  then show "rx_search (Cls P) s" unfolding rx_search_iff by blast
qed

lemma rx_search_Lit: "rx_search (Lit p) s \<longleftrightarrow> (\<exists>pre post. s = pre @ ustr p @ post)"
  by (simp add: rx_search_iff)

lemma matches_word_space:
  "matches (Seq (Lit p) Space) u \<longleftrightarrow> (\<exists>w. isspace w \<and> u = ustr p @ [w])"
  by (auto simp: matches_Seq_iff Space_def)

lemma matches_gap:
  "matches (Seq (Lit p) (Seq (Star Space) (Lit q))) u \<longleftrightarrow>
     (\<exists>ws. list_all isspace ws \<and> u = ustr p @ ws @ ustr q)"
  by (auto simp: matches_Seq_iff Space_def)

lemma matches_gap1:
  "matches (Seq (Lit p) (Seq (Plus Space) (Lit q))) u \<longleftrightarrow>
     (\<exists>ws. ws \<noteq> [] \<and> list_all isspace ws \<and> u = ustr p @ ws @ ustr q)"
  by (auto simp: matches_Seq_iff Space_def)

lemma rx_search_word_space:
  "rx_search (Seq (Lit p) Space) s \<longleftrightarrow> (\<exists>pre w post. isspace w \<and> s = pre @ ustr p @ [w] @ post)"
proof
  assume "rx_search (Seq (Lit p) Space) s"
  then obtain pre u post where "s = pre @ u @ post" "matches (Seq (Lit p) Space) u"
    unfolding rx_search_iff by blast
  then obtain w where "isspace w" "s = pre @ ustr p @ [w] @ post"
    unfolding matches_word_space by auto
  then show "\<exists>pre w post. isspace w \<and> s = pre @ ustr p @ [w] @ post" by blast
next
  assume "\<exists>pre w post. isspace w \<and> s = pre @ ustr p @ [w] @ post"
  then obtain pre w post where "isspace w" "s = pre @ ustr p @ [w] @ post" by blast
  then have "s = pre @ (ustr p @ [w]) @ post \<and> matches (Seq (Lit p) Space) (ustr p @ [w])"
    unfolding matches_word_space by simp
  then show "rx_search (Seq (Lit p) Space) s" unfolding rx_search_iff by blast
qed

lemma rx_search_gap:
  "rx_search (Seq (Lit p) (Seq (Star Space) (Lit q))) s \<longleftrightarrow>
     (\<exists>pre ws post. list_all isspace ws \<and> s = pre @ ustr p @ ws @ ustr q @ post)"
proof
  assume "rx_search (Seq (Lit p) (Seq (Star Space) (Lit q))) s"
  then obtain pre u post where
    "s = pre @ u @ post" "matches (Seq (Lit p) (Seq (Star Space) (Lit q))) u"
    unfolding rx_search_iff by blast
  then obtain ws where "list_all isspace ws" "s = pre @ ustr p @ ws @ ustr q @ post"
    unfolding matches_gap by auto
  then show "\<exists>pre ws post. list_all isspace ws \<and> s = pre @ ustr p @ ws @ ustr q @ post"
    by blast
next
  assume "\<exists>pre ws post. list_all isspace ws \<and> s = pre @ ustr p @ ws @ ustr q @ post"
  then obtain pre ws post where
    "list_all isspace ws" "s = pre @ ustr p @ ws @ ustr q @ post" by blast
  then have "s = pre @ (ustr p @ ws @ ustr q) @ post
      \<and> matches (Seq (Lit p) (Seq (Star Space) (Lit q))) (ustr p @ ws @ ustr q)"
    unfolding matches_gap by auto
  then show "rx_search (Seq (Lit p) (Seq (Star Space) (Lit q))) s"
    unfolding rx_search_iff by blast
qed

lemma rx_search_gap1:
  "rx_search (Seq (Lit p) (Seq (Plus Space) (Lit q))) s \<longleftrightarrow>
     (\<exists>pre ws post. ws \<noteq> [] \<and> list_all isspace ws \<and> s = pre @ ustr p @ ws @ ustr q @ post)"
proof
  assume "rx_search (Seq (Lit p) (Seq (Plus Space) (Lit q))) s"
  then obtain pre u post where
    "s = pre @ u @ post" "matches (Seq (Lit p) (Seq (Plus Space) (Lit q))) u"
    unfolding rx_search_iff by blast
  then obtain ws where "ws \<noteq> []" "list_all isspace ws" "s = pre @ ustr p @ ws @ ustr q @ post"
    unfolding matches_gap1 by auto
  then show "\<exists>pre ws post. ws \<noteq> [] \<and> list_all isspace ws
      \<and> s = pre @ ustr p @ ws @ ustr q @ post"
    by blast
next
  assume "\<exists>pre ws post. ws \<noteq> [] \<and> list_all isspace ws \<and> s = pre @ ustr p @ ws @ ustr q @ post"
  then obtain pre ws post where
    "ws \<noteq> []" "list_all isspace ws" "s = pre @ ustr p @ ws @ ustr q @ post" by blast
  then have "s = pre @ (ustr p @ ws @ ustr q) @ post
      \<and> matches (Seq (Lit p) (Seq (Plus Space) (Lit q))) (ustr p @ ws @ ustr q)"
    unfolding matches_gap1 by auto
  then show "rx_search (Seq (Lit p) (Seq (Plus Space) (Lit q))) s"
    unfolding rx_search_iff by blast
qed

lemma dangerous_patterns_iff:
  "list_ex (\<lambda>pattern. rx_search pattern s) dangerous_patterns \<longleftrightarrow> dangerous_text s"
  by (simp add: dangerous_patterns_def dangerous_text_def
      rx_search_Cls rx_search_Lit rx_search_word_space rx_search_gap rx_search_gap1)






lemma utf8_decode_nat_ascii:
  "utf8_decode_nat bs = Some s \<Longrightarrow> c \<in> set bs \<Longrightarrow> c < 128 \<Longrightarrow> c \<in> set s"
proof (induction bs arbitrary: s rule: utf8_decode_nat.induct)
  case 1
  then show ?case by simp
next
  case (2 b0 bs)
  show ?case
  proof (cases "b0 < 128")
    case True
    with "2.prems"(1) obtain s' where s': "utf8_decode_nat bs = Some s'" "s = b0 # s'"
      by auto
    with "2.IH"(1)[OF True s'(1)] "2.prems"(2,3) show ?thesis by auto
  next
    case n1: False
    show ?thesis
    proof (cases "194 \<le> b0 \<and> b0 < 224")
      case True
      with n1 "2.prems"(1) obtain b1 r s' where
        d: "bs = b1 # r" "is_cont b1" "utf8_decode_nat r = Some s'"
           "s = ((b0 - 192) * 64 + (b1 - 128)) # s'"
        by (auto split: list.splits if_splits)
      from d(1,2) "2.prems"(2,3) n1 have "c \<in> set r" by (auto simp: is_cont_def)
      with "2.IH"(2)[OF n1 True d(1) d(2) d(3)] "2.prems"(3) d(4) show ?thesis by simp
    next
      case n2: False
      show ?thesis
      proof (cases "224 \<le> b0 \<and> b0 < 240")
        case True
        let ?ok = "\<lambda>b1 b2. is_cont b1 \<and> is_cont b2 \<and> (if b0 = 224 then 160 \<le> b1 else True)
                \<and> (if b0 = 237 then b1 < 160 else True)"
        from n1 n2 True "2.prems"(1) obtain b1 b2 r s' where
          d: "bs = b1 # b2 # r" "?ok b1 b2" "utf8_decode_nat r = Some s'"
             "s = ((b0 - 224) * 4096 + (b1 - 128) * 64 + (b2 - 128)) # s'"
          by (auto split: list.splits if_splits)
        from d(1,2) "2.prems"(2,3) n1 have "c \<in> set r" by (auto simp: is_cont_def)
        with "2.IH"(3)[OF n1 n2 True d(1) refl d(2) d(3)] "2.prems"(3) d(4)
        show ?thesis by simp
      next
        case n3: False
        let ?ok = "\<lambda>b1 b2 b3. is_cont b1 \<and> is_cont b2 \<and> is_cont b3
                \<and> (if b0 = 240 then 144 \<le> b1 else True)
                \<and> (if b0 = 244 then b1 < 144 else True)"
        from n1 n2 n3 "2.prems"(1) have r4: "240 \<le> b0 \<and> b0 < 245"
          by (auto split: if_splits)
        with n1 n2 n3 "2.prems"(1) obtain b1 b2 b3 r s' where
          d: "bs = b1 # b2 # b3 # r" "?ok b1 b2 b3" "utf8_decode_nat r = Some s'"
             "s = ((b0 - 240) * 262144 + (b1 - 128) * 4096 + (b2 - 128) * 64 + (b3 - 128)) # s'"
          by (auto split: list.splits if_splits)
        from d(1,2) "2.prems"(2,3) n1 have "c \<in> set r" by (auto simp: is_cont_def)
        with "2.IH"(4)[OF n1 n2 n3 r4 d(1) refl refl d(2) d(3)] "2.prems"(3) d(4)
        show ?thesis by simp
      qed
    qed
  qed
qed

lemma universal_newlines_keeps:
  "c \<in> set s \<Longrightarrow> c \<noteq> 13 \<Longrightarrow> c \<noteq> 10 \<Longrightarrow> c \<in> set (universal_newlines b s)"
  by (induction b s rule: universal_newlines.induct) auto

lemma metachar_ascii: "metachar c \<Longrightarrow> c < 128 \<and> c \<noteq> 13 \<and> c \<noteq> 10"
  by (auto simp: metachar_def)

lemma validate_env_file_dangerous:
  "read_text f p = Inr content \<Longrightarrow> dangerous_text content \<Longrightarrow>
   validate_env_file f p = ([WarnDangerousPattern p], False)"
  by (auto simp: validate_env_file_def dangerous_patterns_iff read_text_def read_bytes_def
        exists_def is_file_def split: option.splits node.splits sum.splits)


lemma detect_eval:
  "read_text f p = Inr content \<Longrightarrow> findall_vars 0 content = ns \<Longrightarrow>
   detect_template_variables f p = set ns"
  by (simp add: detect_template_variables_def)

text \<open>
  Claim C7.  \<open>detect_template_variables\<close> returns exactly the names \<open>N\<close> for which the
  literal text \<^verbatim>\<open>${N}\<close> occurs in the text of the file, \<open>N\<close> being one leading letter
  or underscore followed by letters, digits or underscores; a file that is not UTF-8 gives
  the empty set; and the four examples of the specification give \<open>{HOME, API_KEY}\<close>,
  nothing, nothing and \<open>{NESTED}\<close>.
\<close>

theorem detect_template_variables_spec:
  "(read_text f p = Inr content \<longrightarrow>
      detect_template_variables f p = {n. is_var_name n \<and> occurs_var n content})
   \<and> (lookup g q = Some (File b) \<and> utf8_decode b = None \<longrightarrow> detect_template_variables g q = {})
   \<and> detect_template_variables (one_file [ustr ''t.json''] ''{\"a\":\"${HOME}\",\"b\":\"${API_KEY}\"}'')
        [ustr ''t.json''] = {ustr ''HOME'', ustr ''API_KEY''}
   \<and> detect_template_variables (one_file [ustr ''t.json''] ''${INCOMPLETE'') [ustr ''t.json''] = {}
   \<and> detect_template_variables (one_file [ustr ''t.json''] ''${}'') [ustr ''t.json''] = {}
   \<and> detect_template_variables (one_file [ustr ''t.json''] ''${${NESTED}}'') [ustr ''t.json'']
        = {ustr ''NESTED''}"
proof -
  have a: "read_text f p = Inr content \<longrightarrow>
      detect_template_variables f p = {n. is_var_name n \<and> occurs_var n content}"
    by (simp add: detect_template_variables_def findall_vars_set)
  have b: "lookup g q = Some (File b) \<and> utf8_decode b = None \<longrightarrow> detect_template_variables g q = {}"
    by (simp add: detect_template_variables_def read_text_def read_bytes_def)
  have c: "detect_template_variables (one_file [ustr ''t.json''] ''{\"a\":\"${HOME}\",\"b\":\"${API_KEY}\"}'') [ustr ''t.json'']
        = {ustr ''HOME'', ustr ''API_KEY''}"
  proof -
    have "read_text (one_file [ustr ''t.json''] ''{\"a\":\"${HOME}\",\"b\":\"${API_KEY}\"}'') [ustr ''t.json'']
        = Inr (ustr ''{\"a\":\"${HOME}\",\"b\":\"${API_KEY}\"}'')"
      by code_simp
    moreover have "findall_vars 0 (ustr ''{\"a\":\"${HOME}\",\"b\":\"${API_KEY}\"}'') = [ustr ''HOME'', ustr ''API_KEY'']"
      by code_simp
    ultimately show ?thesis by (simp add: detect_eval)
  qed
  have d: "detect_template_variables (one_file [ustr ''t.json''] ''${INCOMPLETE'') [ustr ''t.json'']
        = {}"
  proof -
    have "read_text (one_file [ustr ''t.json''] ''${INCOMPLETE'') [ustr ''t.json'']
        = Inr (ustr ''${INCOMPLETE'')"
      by code_simp
    moreover have "findall_vars 0 (ustr ''${INCOMPLETE'') = []"
      by code_simp
    ultimately show ?thesis by (simp add: detect_eval)
  qed
  have e: "detect_template_variables (one_file [ustr ''t.json''] ''${}'') [ustr ''t.json'']
        = {}"
  proof -
    have "read_text (one_file [ustr ''t.json''] ''${}'') [ustr ''t.json'']
        = Inr (ustr ''${}'')"
      by code_simp
    moreover have "findall_vars 0 (ustr ''${}'') = []"
      by code_simp
    ultimately show ?thesis by (simp add: detect_eval)
  qed
  have f: "detect_template_variables (one_file [ustr ''t.json''] ''${${NESTED}}'') [ustr ''t.json'']
        = {ustr ''NESTED''}"
  proof -
    have "read_text (one_file [ustr ''t.json''] ''${${NESTED}}'') [ustr ''t.json'']
        = Inr (ustr ''${${NESTED}}'')"
      by code_simp
    moreover have "findall_vars 0 (ustr ''${${NESTED}}'') = [ustr ''NESTED'']"
      by code_simp
    ultimately show ?thesis by (simp add: detect_eval)
  qed
  show ?thesis by (intro conjI a b c d e f)
qed

theorem detect_template_variables_spec_witness:
  "read_text (one_file [ustr ''f''] ''a${X_1}b'') [ustr ''f''] = Inr (ustr ''a${X_1}b'')
   \<and> detect_template_variables (one_file [ustr ''f''] ''a${X_1}b'') [ustr ''f'']
       = {n. is_var_name n \<and> occurs_var n (ustr ''a${X_1}b'')}
   \<and> lookup (one_file [ustr ''g''] [CHR 0xC3, CHR 0x28]) [ustr ''g'']
       = Some (File [CHR 0xC3, CHR 0x28])
   \<and> utf8_decode [CHR 0xC3, CHR 0x28] = None
   \<and> detect_template_variables (one_file [ustr ''g''] [CHR 0xC3, CHR 0x28]) [ustr ''g''] = {}"
proof -
  have h1: "read_text (one_file [ustr ''f''] ''a${X_1}b'') [ustr ''f''] = Inr (ustr ''a${X_1}b'')"
    by code_simp
  have h2: "lookup (one_file [ustr ''g''] [CHR 0xC3, CHR 0x28]) [ustr ''g'']
       = Some (File [CHR 0xC3, CHR 0x28])"
    by code_simp
  have h3: "utf8_decode [CHR 0xC3, CHR 0x28] = None"
    by code_simp
  note s = detect_template_variables_spec[of "one_file [ustr ''f''] ''a${X_1}b''" "[ustr ''f'']"
      "ustr ''a${X_1}b''" "one_file [ustr ''g''] [CHR 0xC3, CHR 0x28]" "[ustr ''g'']"
      "[CHR 0xC3, CHR 0x28]"]
  from s[THEN conjunct1] h1
  have r1: "detect_template_variables (one_file [ustr ''f''] ''a${X_1}b'') [ustr ''f'']
       = {n. is_var_name n \<and> occurs_var n (ustr ''a${X_1}b'')}"
    by (rule mp)
  from s[THEN conjunct2, THEN conjunct1] conjI[OF h2 h3]
  have r2: "detect_template_variables (one_file [ustr ''g''] [CHR 0xC3, CHR 0x28]) [ustr ''g''] = {}"
    by (rule mp)
  show ?thesis by (intro conjI h1 r1 h2 h3 r2)
qed

lemma metachar_unsafe:
  "lookup f p = Some (File b) \<Longrightarrow> ch \<in> set b \<Longrightarrow> metachar (of_char ch) \<Longrightarrow>
   snd (validate_env_file f p) = False"
proof (cases "utf8_decode b")
  case None
  assume "lookup f p = Some (File b)"
  with None show ?thesis
    by (simp add: validate_env_file_def read_text_def read_bytes_def exists_def is_file_def)
next
  case (Some s)
  assume l: "lookup f p = Some (File b)" and ch: "ch \<in> set b" and m: "metachar (of_char ch)"
  let ?c = "of_char ch :: nat"
  from ch have "?c \<in> set (map of_char b)" by simp
  with Some m have "?c \<in> set s"
    unfolding utf8_decode_def by (auto dest: metachar_ascii intro: utf8_decode_nat_ascii)
  with m have "?c \<in> set (universal_newlines False s)"
    by (auto dest: metachar_ascii intro: universal_newlines_keeps)
  with m have "\<exists>c \<in> set (universal_newlines False s). metachar c" by (rule_tac bexI)
  then have "dangerous_text (universal_newlines False s)"
    unfolding dangerous_text_def by (rule disjI1)
  moreover from l Some have "read_text f p = Inr (universal_newlines False s)"
    by (simp add: read_text_def read_bytes_def)
  ultimately show ?thesis by (simp add: validate_env_file_dangerous)
qed

text \<open>
  Claim C10.  \<open>validate_env_file\<close> answers \<open>False\<close> for every file in which one of the
  characters \<^verbatim>\<open>; & | ` $ ( ) { }\<close> occurs anywhere, also inside the value of an
  ordinary assignment such as \<^verbatim>\<open>KEY=$HOME\<close>, and also when every line that is neither
  blank nor a comment has the shape \<open>KEY=VALUE\<close>.  The file is given by its bytes: when
  they are not UTF-8 the answer is \<open>False\<close> as well.
\<close>

theorem validate_env_file_metachar:
  "lookup f p = Some (File b) \<Longrightarrow> ch \<in> set b \<Longrightarrow> metachar (of_char ch) \<Longrightarrow>
   snd (validate_env_file f p) = False"
  by (rule metachar_unsafe)

lemma valid_env_line_eval:
  "valid_env_line (ustr ''KEY=$HOME'')" "valid_env_line (ustr ''KEY={x}'')"
  by code_simp code_simp

theorem validate_env_file_metachar_witness:
  "lookup (one_file [ustr ''.env''] ''KEY=$HOME'') [ustr ''.env''] = Some (File ''KEY=$HOME'')
   \<and> CHR ''$'' \<in> set ''KEY=$HOME'' \<and> metachar (of_char CHR ''$'')
   \<and> list_all valid_env_line (env_lines (ustr ''KEY=$HOME''))
   \<and> snd (validate_env_file (one_file [ustr ''.env''] ''KEY=$HOME'') [ustr ''.env'']) = False"
proof -
  have h1: "lookup (one_file [ustr ''.env''] ''KEY=$HOME'') [ustr ''.env''] = Some (File ''KEY=$HOME'')"
    by code_simp
  have h2: "CHR ''$'' \<in> set ''KEY=$HOME''" by simp
  have h3: "metachar (of_char CHR ''$'')" by code_simp
  have "env_lines (ustr ''KEY=$HOME'') = [ustr ''KEY=$HOME'']"
    by (simp add: env_lines_def strip_def lstrip_def rstrip_def isspace_def)
  then have h4: "list_all valid_env_line (env_lines (ustr ''KEY=$HOME''))"
    using valid_env_line_eval(1) by simp
  show ?thesis by (intro conjI h1 h2 h3 h4 validate_env_file_metachar[OF h1 h2 h3])
qed









section \<open>The safety rule of the mapping file\<close>

lemma split_on_nonempty: "split_on sep s \<noteq> []"
  by (induction s) (auto split: list.splits)

lemma split_on_hd_prefix: "\<exists>post. s = hd (split_on sep s) @ post"
proof (induction s)
  case Nil
  then show ?case by simp
next
  case (Cons c s)
  then obtain post where p: "s = hd (split_on sep s) @ post" by blast
  show ?case
  proof (cases "c = sep")
    case True
    then show ?thesis by simp
  next
    case False
    obtain w ws where w: "split_on sep s = w # ws"
      using split_on_nonempty[of sep s] by (cases "split_on sep s") auto
    with p have "c # s = (c # w) @ post" by simp
    with False w show ?thesis by auto
  qed
qed

lemma split_on_infix: "w \<in> set (split_on sep s) \<Longrightarrow> \<exists>pre post. s = pre @ w @ post"
proof (induction s arbitrary: w)
  case Nil
  then show ?case by simp
next
  case (Cons c s)
  show ?case
  proof (cases "c = sep")
    case True
    with Cons.prems have "w = [] \<or> w \<in> set (split_on sep s)" by auto
    then show ?thesis
    proof
      assume "w = []"
      then have "c # s = [] @ w @ (c # s)" by simp
      then show ?thesis by blast
    next
      assume "w \<in> set (split_on sep s)"
      with Cons.IH obtain pre post where "s = pre @ w @ post" by blast
      then have "c # s = (c # pre) @ w @ post" by simp
      then show ?thesis by blast
    qed
  next
    case False
    obtain w0 ws where w0: "split_on sep s = w0 # ws"
      using split_on_nonempty[of sep s] by (cases "split_on sep s") auto
    with False Cons.prems have "w = c # w0 \<or> w \<in> set ws" by auto
    then show ?thesis
    proof
      assume w: "w = c # w0"
      from split_on_hd_prefix[of s sep] w0 obtain post where "s = w0 @ post" by auto
      with w have "c # s = [] @ w @ post" by simp
      then show ?thesis by blast
    next
      assume "w \<in> set ws"
      with w0 have "w \<in> set (split_on sep s)" by simp
      with Cons.IH obtain pre post where "s = pre @ w @ post" by blast
      then have "c # s = (c # pre) @ w @ post" by simp
      then show ?thesis by blast
    qed
  qed
qed

lemma contains_if_startswith: "startswith s p \<Longrightarrow> contains s p"
  by (cases s; cases p) auto

lemma contains_if_infix: "s = pre @ p @ post \<Longrightarrow> contains s p"
proof (induction pre arbitrary: s)
  case Nil
  then have "startswith s p" by (auto simp: startswith_iff)
  then show ?case by (rule contains_if_startswith)
next
  case (Cons a pre)
  then show ?case by auto
qed

lemma dotdot_contains: "dotdot_segment p \<Longrightarrow> contains p (ustr ''..'')"
  unfolding dotdot_segment_def by (blast dest: split_on_infix intro: contains_if_infix)

lemma set_strip: "set (strip s) \<subseteq> set s"
proof -
  have "set (strip s) \<subseteq> set (dropWhile isspace s)"
    unfolding strip_def rstrip_def lstrip_def
    by (metis set_dropWhileD set_rev subsetI)
  also have "\<dots> \<subseteq> set s" by (auto dest: set_dropWhileD)
  finally show ?thesis .
qed

lemma dropWhile_snoc:
  "\<not> P c \<Longrightarrow> dropWhile P (xs @ [c]) = dropWhile P xs @ [c]"
  by (induction xs) auto

lemma rstrip_Cons_nonspace: "\<not> isspace c \<Longrightarrow> rstrip (c # t) = c # rstrip t"
  by (simp add: rstrip_def dropWhile_snoc)

lemma rstrip_Cons_space:
  "isspace c \<Longrightarrow> rstrip (c # t) = (if rstrip t = [] then [] else c # rstrip t)"
proof -
  assume c: "isspace c"
  show ?thesis
  proof (cases "\<forall>x \<in> set (rev t). isspace x")
    case True
    then have "dropWhile isspace (rev t @ [c]) = dropWhile isspace [c]"
      by (intro dropWhile_append2) auto
    moreover from True have "dropWhile isspace (rev t) = []" by simp
    ultimately show ?thesis using c by (simp add: rstrip_def)
  next
    case False
    then obtain x where "x \<in> set (rev t)" "\<not> isspace x" by blast
    then have "dropWhile isspace (rev t @ [c]) = dropWhile isspace (rev t) @ [c]"
      by (rule dropWhile_append1)
    moreover from False have "dropWhile isspace (rev t) \<noteq> []" by auto
    ultimately show ?thesis by (simp add: rstrip_def)
  qed
qed

lemma rstrip_lstrip_commute: "rstrip (lstrip s) = lstrip (rstrip s)"
proof (induction s)
  case Nil
  then show ?case by (simp add: rstrip_def lstrip_def)
next
  case (Cons c t)
  show ?case
  proof (cases "isspace c")
    case True
    then have l: "lstrip (c # t) = lstrip t" by (simp add: lstrip_def)
    show ?thesis
    proof (cases "rstrip t = []")
      case True
      with Cons \<open>isspace c\<close> l show ?thesis
        by (simp add: rstrip_Cons_space lstrip_def)
    next
      case False
      with Cons \<open>isspace c\<close> l show ?thesis
        by (simp add: rstrip_Cons_space lstrip_def)
    qed
  next
    case False
    then show ?thesis by (simp add: lstrip_def rstrip_Cons_nonspace)
  qed
qed

lemma rstrip_idem: "rstrip (rstrip s) = rstrip s"
  by (simp add: rstrip_def)

lemma strip_rstrip: "strip (rstrip s) = strip s"
  by (simp add: strip_def rstrip_lstrip_commute[symmetric] rstrip_idem)

lemma strip_nonempty_has_nonspace: "strip s \<noteq> [] \<Longrightarrow> \<exists>x \<in> set s. \<not> isspace x"
proof (rule ccontr)
  assume a: "strip s \<noteq> []" and "\<not> (\<exists>x \<in> set s. \<not> isspace x)"
  then have "dropWhile isspace s = []" by simp
  with a show False by (simp add: strip_def lstrip_def rstrip_def)
qed

lemma not_space_custom [simp]: "\<not> isspace 99" "\<not> isspace 58"
  by (simp_all add: isspace_def)

lemma rstrip_append:
  assumes "x \<in> set c" "\<not> isspace x"
  shows "rstrip (a @ c) = a @ rstrip c"
proof -
  from assms have "dropWhile isspace (rev c @ rev a) = dropWhile isspace (rev c) @ rev a"
    by (intro dropWhile_append1[of x]) auto
  then show ?thesis by (simp add: rstrip_def)
qed

lemma strip_custom_prefix:
  assumes "strip c \<noteq> []"
  shows "strip (ustr ''custom:'' @ c) = ustr ''custom:'' @ rstrip c"
proof -
  from assms obtain x where x: "x \<in> set c" "\<not> isspace x"
    by (auto dest: strip_nonempty_has_nonspace)
  have l: "lstrip (ustr ''custom:'' @ c) = ustr ''custom:'' @ c" by (simp add: lstrip_def)
  have r: "rstrip (ustr ''custom:'' @ c) = ustr ''custom:'' @ rstrip c"
    by (rule rstrip_append[OF x])
  show ?thesis unfolding strip_def l r ..
qed

lemma rfind_last_colon:
  "58 \<notin> set d \<Longrightarrow> rfind 58 (c @ 58 # d) = int (length c)"
proof -
  assume d: "58 \<notin> set d"
  then have "takeWhile (\<lambda>x. x \<noteq> 58) (rev d @ 58 # rev c)
      = rev d @ takeWhile (\<lambda>x. x \<noteq> 58) (58 # rev c)"
    by (intro takeWhile_append2) auto
  then have "takeWhile (\<lambda>x. x \<noteq> 58) (rev d @ 58 # rev c) = rev d"
    by simp
  then show ?thesis by (simp add: rfind_def)
qed

lemma split_once_first_colon:
  "58 \<notin> set r \<Longrightarrow> split_once 58 (r @ 58 # d) = (r, d)"
proof -
  assume r: "58 \<notin> set r"
  then have "takeWhile (\<lambda>x. x \<noteq> 58) (r @ 58 # d) = r @ takeWhile (\<lambda>x. x \<noteq> 58) (58 # d)"
    by (intro takeWhile_append2) auto
  moreover from r have "dropWhile (\<lambda>x. x \<noteq> 58) (r @ 58 # d) = dropWhile (\<lambda>x. x \<noteq> 58) (58 # d)"
    by (intro dropWhile_append2) auto
  ultimately show ?thesis by (simp add: split_once_def)
qed

lemma contains_colon: "contains (r @ 58 # d) (ustr '':'')"
proof -
  have "r @ 58 # d = r @ ustr '':'' @ d" by simp
  then show ?thesis by (rule contains_if_infix)
qed

lemma no_colon_not_custom:
  "58 \<notin> set s \<Longrightarrow> \<not> startswith s (ustr ''custom:'')"
  by (auto simp: startswith_iff)

lemma parse_line_regular_offending:
  assumes form: "line_form raw (Regular repo dest)" and off: "offending (Regular repo dest)"
  shows "\<exists>ms e. parse_line cfg n raw = (ms, Inl e)"
proof -
  from form obtain r d where
    line: "strip raw = r @ 58 # d" and r: "58 \<notin> set r"
    and nc: "\<not> startswith (strip raw) (ustr ''#'')"
    and ncu: "\<not> startswith (strip raw) (ustr ''custom:'')"
    and rd: "repo = strip r" "dest = strip d" "repo \<noteq> []" "dest \<noteq> []"
    by auto
  have c1: "contains (strip raw) (ustr '':'')" unfolding line by (rule contains_colon)
  have so: "split_once 58 (strip raw) = (r, d)"
    unfolding line using r by (rule split_once_first_colon)
  from r set_strip[of r] rd(1) have "58 \<notin> set repo" by auto
  then have nrc: "\<not> startswith repo (ustr ''custom:'')" by (rule no_colon_not_custom)
  from off have "dest = ustr ''/'' \<or> dest = ustr ''~''
      \<or> contains repo (ustr ''..'') \<or> contains dest (ustr ''..'')"
    by (auto dest: dotdot_contains)
  with line nc ncu c1 so nrc rd show ?thesis
    by (auto simp: parse_line_def Let_def)
qed

lemma parse_line_overlay_offending:
  assumes form: "line_form raw (Overlay name dest)" and off: "offending (Overlay name dest)"
  shows "\<exists>ms e. parse_line cfg n raw = (ms, Inl e)"
proof -
  from form obtain c d where
    line: "strip raw = ustr ''custom:'' @ c @ 58 # d" and d: "58 \<notin> set d"
    and nd: "name = strip c" "dest = strip d" "name \<noteq> []" "dest \<noteq> []"
    by auto
  have ne: "strip raw \<noteq> []" and nc: "\<not> startswith (strip raw) (ustr ''#'')"
    and cu: "startswith (strip raw) (ustr ''custom:'')"
    unfolding line by simp_all
  have c1: "contains (strip raw) (ustr '':'')"
  proof -
    have "strip raw = (ustr ''custom:'' @ c) @ ustr '':'' @ d" unfolding line by simp
    then show ?thesis by (rule contains_if_infix)
  qed
  have pf: "drop 7 (strip raw) = c @ 58 # d" unfolding line by simp
  have c2: "contains (c @ 58 # d) (ustr '':'')" by (rule contains_colon)
  have lc: "rfind 58 (c @ 58 # d) = int (length c)" using d by (rule rfind_last_colon)
  have tk: "take (nat (int (length c))) (c @ 58 # d) = c" by simp
  have dr: "drop (nat (int (length c) + 1)) (c @ 58 # d) = d" by (simp add: nat_add_distrib)
  from nd have sc: "strip c \<noteq> []" by simp
  have rp0: "strip (ustr ''custom:'' @ c) = ustr ''custom:'' @ rstrip c"
    using sc by (rule strip_custom_prefix)
  have cp: "strip (drop 7 (strip (ustr ''custom:'' @ c))) = name"
    unfolding rp0 using nd(1) by (simp add: strip_rstrip)
  have st: "startswith (strip (ustr ''custom:'' @ c)) (ustr ''custom:'')"
    unfolding rp0 by simp
  have rne: "strip (ustr ''custom:'' @ c) \<noteq> []" unfolding rp0 by simp
  from off have o: "dest = ustr ''/'' \<or> dest = ustr ''~''
      \<or> contains name (ustr ''..'') \<or> contains dest (ustr ''..'')"
    by (auto dest: dotdot_contains)
  let ?rest = "\<lambda>repo_path system_path.
      if repo_path = [] \<or> system_path = [] then ([WarnEmptyValues n (strip raw)], Inr cfg)
      else if system_path = ustr ''/'' \<or> system_path = ustr ''~''
      then ([ErrDangerousSystemPath n system_path], Inl (RefusingRootOrHome system_path))
      else if startswith repo_path (ustr ''custom:'')
      then
        (let custom_path = strip (drop 7 repo_path) in
         if contains custom_path (ustr ''..'') \<or> contains system_path (ustr ''..'')
         then ([ErrPathTraversal n], Inl (PathTraversalNotAllowed (strip raw)))
         else ([], Inr (cfg\<lparr>custom_map := AList.update system_path custom_path (custom_map cfg)\<rparr>)))
      else
        (if contains repo_path (ustr ''..'') \<or> contains system_path (ustr ''..'')
         then ([ErrPathTraversal n], Inl (PathTraversalNotAllowed (strip raw)))
         else ([], Inr (cfg\<lparr>dotfiles := dotfiles cfg @ [repo_path],
                             file_map := AList.update repo_path system_path (file_map cfg)\<rparr>)))"
  have "parse_line cfg n raw = ?rest (strip (ustr ''custom:'' @ c)) (strip d)"
    unfolding parse_line_def Let_def pf lc tk dr
    using ne nc cu c1 c2 sc by (simp only: if_False if_True simp_thms split_conv)
  also have "\<dots> =
      (if dest = ustr ''/'' \<or> dest = ustr ''~''
       then ([ErrDangerousSystemPath n dest], Inl (RefusingRootOrHome dest))
       else if contains name (ustr ''..'') \<or> contains dest (ustr ''..'')
       then ([ErrPathTraversal n], Inl (PathTraversalNotAllowed (strip raw)))
       else ([], Inr (cfg\<lparr>custom_map := AList.update dest name (custom_map cfg)\<rparr>)))"
    unfolding Let_def cp using rne st nd(2,4) by (simp only: if_False if_True simp_thms)
  finally have "parse_line cfg n raw =
      (if dest = ustr ''/'' \<or> dest = ustr ''~''
       then ([ErrDangerousSystemPath n dest], Inl (RefusingRootOrHome dest))
       else if contains name (ustr ''..'') \<or> contains dest (ustr ''..'')
       then ([ErrPathTraversal n], Inl (PathTraversalNotAllowed (strip raw)))
       else ([], Inr (cfg\<lparr>custom_map := AList.update dest name (custom_map cfg)\<rparr>)))" .
  with o show ?thesis by auto
qed

lemma parse_line_offending:
  "line_form raw m \<Longrightarrow> offending m \<Longrightarrow> \<exists>ms e. parse_line cfg n raw = (ms, Inl e)"
proof (cases m)
  case (Regular repo dest)
  assume "line_form raw m" "offending m"
  with Regular show ?thesis using parse_line_regular_offending by blast
next
  case (Overlay name dest)
  assume "line_form raw m" "offending m"
  with Overlay show ?thesis using parse_line_overlay_offending by blast
qed

lemma parse_lines_raises:
  assumes "l \<in> set ls" and "\<And>cfg n. \<exists>ms e. parse_line cfg n l = (ms, Inl e)"
  shows "\<exists>ms cfg' e k. parse_lines cfg n ls = (ms, cfg', Some e) \<and> k < length ls
           \<and> (\<exists>ms'. parse_lines cfg n (take k ls) = (ms', cfg', None))"
  using assms(1)
proof (induction ls arbitrary: cfg n)
  case Nil
  then show ?case by simp
next
  case (Cons a ls)
  obtain ms r where pl: "parse_line cfg n a = (ms, r)" by (cases "parse_line cfg n a")
  show ?case
  proof (cases r)
    case (Inl e)
    with pl have "parse_lines cfg n (a # ls) = (ms, cfg, Some e)" by simp
    moreover have "parse_lines cfg n (take 0 (a # ls)) = ([], cfg, None)" by simp
    ultimately show ?thesis by (intro exI[of _ ms] exI[of _ cfg] exI[of _ e] exI[of _ 0]) simp
  next
    case (Inr cfg1)
    with pl assms(2)[of cfg n] Cons.prems have "l \<in> set ls" by auto
    from Cons.IH[OF this, of cfg1 "Suc n"] obtain ms1 cfg' e k ms' where
      ih: "parse_lines cfg1 (Suc n) ls = (ms1, cfg', Some e)" "k < length ls"
          "parse_lines cfg1 (Suc n) (take k ls) = (ms', cfg', None)"
      by blast
    from pl Inr ih(1) have "parse_lines cfg n (a # ls) = (ms @ ms1, cfg', Some e)" by simp
    moreover from pl Inr ih(3)
    have "parse_lines cfg n (take (Suc k) (a # ls)) = (ms @ ms', cfg', None)" by simp
    moreover from ih(2) have "Suc k < length (a # ls)" by simp
    ultimately show ?thesis by blast
  qed
qed

lemma main_parse_error:
  assumes "read_text (fs w) config_file = Inr content"
    and "parse_config (new_config h config_file) (split_on 10 content) = (ms, cfg', Some e)"
  shows "main run_action h config_file w = (1, warn (ms @ [ErrException]) w)"
  using assms by (simp add: main_def)

text \<open>
  Claim C3.  When a well-formed line of the mapping file has the destination \<open>/\<close> or
  \<open>~\<close>, or a \<open>..\<close> segment in either path, \<open>parse_config\<close> raises a safety
  error: the object is left as a proper prefix of the lines made it, so the line adds no
  entry and no later line is read; and \<open>main\<close> exits with status 1 without running any
  action, so no entry of the file is used.
\<close>

theorem parse_config_safety:
  assumes "line_form l m" and "offending m"
    and "l \<in> set file_lines"
    and "read_text (fs w) config_file = Inr content" and "l \<in> set (split_on 10 content)"
  shows "(\<exists>ms cfg' e k. parse_config cfg file_lines = (ms, cfg', Some e) \<and> k < length file_lines
            \<and> (\<exists>ms'. parse_config cfg (take k file_lines) = (ms', cfg', None)))
         \<and> (\<exists>ms. main run_action h config_file w = (1, warn ms w))"
proof
  have r: "\<And>cfg n. \<exists>ms e. parse_line cfg n l = (ms, Inl e)"
    using assms(1,2) by (rule parse_line_offending)
  from parse_lines_raises[OF assms(3) r, of cfg 1]
  show "\<exists>ms cfg' e k. parse_config cfg file_lines = (ms, cfg', Some e) \<and> k < length file_lines
            \<and> (\<exists>ms'. parse_config cfg (take k file_lines) = (ms', cfg', None))"
    unfolding parse_config_def .
  from parse_lines_raises[OF assms(5) r, of "new_config h config_file" 1]
  obtain ms cfg' e where
    "parse_config (new_config h config_file) (split_on 10 content) = (ms, cfg', Some e)"
    unfolding parse_config_def by blast
  with assms(4) have "main run_action h config_file w = (1, warn (ms @ [ErrException]) w)"
    by (rule main_parse_error)
  then show "\<exists>ms. main run_action h config_file w = (1, warn ms w)" by blast
qed

theorem parse_config_safety_witness:
  "line_form (ustr ''b:/'') (Regular (ustr ''b'') (ustr ''/''))
   \<and> offending (Regular (ustr ''b'') (ustr ''/''))
   \<and> ustr ''b:/'' \<in> set [ustr ''a:.a'', ustr ''b:/'']
   \<and> read_text (fs (conf_world ''a:.a\<newline>b:/'')) [ustr ''dotfiles.conf'']
        = Inr (ustr ''a:.a\<newline>b:/'')
   \<and> ustr ''b:/'' \<in> set (split_on 10 (ustr ''a:.a\<newline>b:/''))
   \<and> (\<exists>ms cfg' e k.
          parse_config (new_config \<lparr>home = [ustr ''home''], envsubst_help = HelpRan,
                                    shell = (\<lambda>a b c. RunFailed None)\<rparr> [ustr ''dotfiles.conf''])
            [ustr ''a:.a'', ustr ''b:/''] = (ms, cfg', Some e)
          \<and> k < length [ustr ''a:.a'', ustr ''b:/'']
          \<and> (\<exists>ms'. parse_config (new_config \<lparr>home = [ustr ''home''], envsubst_help = HelpRan,
                                    shell = (\<lambda>a b c. RunFailed None)\<rparr> [ustr ''dotfiles.conf''])
                 (take k [ustr ''a:.a'', ustr ''b:/'']) = (ms', cfg', None)))
   \<and> (\<exists>ms. main (\<lambda>cfg w. (0, w)) \<lparr>home = [ustr ''home''], envsubst_help = HelpRan,
                                    shell = (\<lambda>a b c. RunFailed None)\<rparr>
               [ustr ''dotfiles.conf''] (conf_world ''a:.a\<newline>b:/'')
             = (1, warn ms (conf_world ''a:.a\<newline>b:/'')))"
proof -
  have s: "strip (ustr ''b:/'') = ustr ''b:/''" "strip (ustr ''b'') = ustr ''b''"
    "strip (ustr ''/'') = ustr ''/''"
    by (simp_all add: strip_def lstrip_def rstrip_def isspace_def)
  have "strip (ustr ''b:/'') = ustr ''b'' @ ustr '':'' @ ustr ''/'' \<and> 58 \<notin> set (ustr ''b'')
        \<and> \<not> startswith (strip (ustr ''b:/'')) (ustr ''#'')
        \<and> \<not> startswith (strip (ustr ''b:/'')) (ustr ''custom:'')
        \<and> ustr ''b'' = strip (ustr ''b'') \<and> ustr ''/'' = strip (ustr ''/'')
        \<and> ustr ''b'' \<noteq> [] \<and> ustr ''/'' \<noteq> []"
    unfolding s by simp
  then have h1: "line_form (ustr ''b:/'') (Regular (ustr ''b'') (ustr ''/''))"
    unfolding line_form.simps by blast
  have h2: "offending (Regular (ustr ''b'') (ustr ''/''))" by simp
  have h3: "ustr ''b:/'' \<in> set [ustr ''a:.a'', ustr ''b:/'']" by simp
  have h4: "read_text (fs (conf_world ''a:.a\<newline>b:/'')) [ustr ''dotfiles.conf'']
        = Inr (ustr ''a:.a\<newline>b:/'')"
    by (simp add: conf_world_def read_text_def read_bytes_def lookup_def one_file_def
          utf8_decode_def)
  have h5: "ustr ''b:/'' \<in> set (split_on 10 (ustr ''a:.a\<newline>b:/''))" by simp
  note t = parse_config_safety[OF h1 h2 h3 h4 h5,
      of "new_config \<lparr>home = [ustr ''home''], envsubst_help = HelpRan,
                       shell = (\<lambda>a b c. RunFailed None)\<rparr> [ustr ''dotfiles.conf'']"
         "\<lambda>cfg w. (0, w)"
         "\<lparr>home = [ustr ''home''], envsubst_help = HelpRan, shell = (\<lambda>a b c. RunFailed None)\<rparr>"]
  show ?thesis by (intro conjI h1 h2 h3 h4 h5 t[THEN conjunct1] t[THEN conjunct2])
qed

end
